theory Spec2Isabelle
  imports Main "HOL-Library.Word"
begin

unbundle bit_operations_syntax

section \<open>Machine types\<close>

type_synonym u8 = "8 word"
type_synonym u16 = "16 word"
type_synonym u32 = "32 word"
type_synonym u64 = "64 word"

section \<open>Pak\_Decrypt.c: the key XOR\<close>

text \<open>
  \<^verbatim>\<open>static __inline void decode(uint8_t* a, uint8_t* k, uint32_t length)\<close>:
  the loop \<^verbatim>\<open>for (i = 0; i < length; i++) a[i] ^= k[i % 20];\<close> with the
  counter \<open>i\<close> as the first argument.  The caller passes a buffer of at
  least \<open>length\<close> bytes.
\<close>

function decode_loop :: "nat \<Rightarrow> u8 list \<Rightarrow> u8 list \<Rightarrow> nat \<Rightarrow> u8 list" where
  "decode_loop i a k len =
     (if i < len then decode_loop (i + 1) (a[i := a ! i XOR k ! (i mod 20)]) k len else a)"
  by pat_completeness auto
termination
  by (relation "measure (\<lambda>(i, a, k, len). len - i)") auto

declare decode_loop.simps [simp del]

definition decode :: "u8 list \<Rightarrow> u8 list \<Rightarrow> nat \<Rightarrow> u8 list" where
  "decode a k len = decode_loop 0 a k len"

section \<open>Pak\_Decrypt.c: layout autodetect\<close>

text \<open>
  The entry table is the raw byte buffer \<^verbatim>\<open>entries64\<close> of
  \<open>nb_entries * 168\<close> bytes (\<^verbatim>\<open>calloc(header.nb_entries, sizeof(pak_entry64))\<close>,
  filled by \<^verbatim>\<open>fread\<close>).  Both structs are packed; their fields are read in
  the host's byte order, which is little-endian on the machines the tool is
  built for (the specification gives the header words as little-endian).
  Field offsets: \<^verbatim>\<open>filename\<close> 0, \<^verbatim>\<open>length\<close> 128, \<^verbatim>\<open>key\<close> 132,
  \<^verbatim>\<open>data_offset\<close> 152; \<^verbatim>\<open>sizeof(pak_entry32)\<close> is 160 and
  \<^verbatim>\<open>sizeof(pak_entry64)\<close> is 168.
\<close>

definition le32 :: "u8 list \<Rightarrow> nat \<Rightarrow> u32" where
  "le32 b off = ucast (b ! off) OR push_bit 8 (ucast (b ! (off + 1)))
     OR push_bit 16 (ucast (b ! (off + 2))) OR push_bit 24 (ucast (b ! (off + 3)))"

definition le64 :: "u8 list \<Rightarrow> nat \<Rightarrow> u64" where
  "le64 b off = ucast (le32 b off) OR push_bit 32 (ucast (le32 b (off + 4)))"

text \<open>\<^verbatim>\<open>((pak_entry32*)entries64)[i].data_offset\<close>\<close>

definition data_offset32 :: "u8 list \<Rightarrow> nat \<Rightarrow> u32" where
  "data_offset32 entries64 i = le32 entries64 (160 * i + 152)"

text \<open>\<^verbatim>\<open>entries64[i].data_offset\<close>\<close>

definition data_offset64 :: "u8 list \<Rightarrow> nat \<Rightarrow> u64" where
  "data_offset64 entries64 i = le64 entries64 (168 * i + 152)"

text \<open>
  One summand of the inner \<^verbatim>\<open>for (j ...)\<close> loop:
  \<^verbatim>\<open>(val[j] > last[j]) ? val[j] - last[j] : last[j] - val[j]\<close>, computed on
  \<^verbatim>\<open>uint32_t\<close> and widened for the addition to the \<^verbatim>\<open>uint64_t\<close> sum.
\<close>

definition abs_delta :: "u32 \<Rightarrow> u32 \<Rightarrow> u64" where
  "abs_delta val last_val = ucast (if val > last_val then val - last_val else last_val - val)"

text \<open>
  The detection loop of \<^verbatim>\<open>main\<close>, with the inner loop over \<open>j = 0, 1\<close>
  written out; \<open>n\<close> is \<^verbatim>\<open>min(header.nb_entries, 64)\<close>.
\<close>

function autodetect_loop ::
  "nat \<Rightarrow> nat \<Rightarrow> u8 list \<Rightarrow> u64 \<times> u64 \<Rightarrow> u32 \<times> u32 \<Rightarrow> u64 \<times> u64" where
  "autodetect_loop i n entries64 sums last_val =
     (if i < n then
        let val0 = data_offset32 entries64 i;
            val1 = (ucast (drop_bit 32 (data_offset64 entries64 i)) :: u32)
        in autodetect_loop (i + 1) n entries64
             (fst sums + abs_delta val0 (fst last_val), snd sums + abs_delta val1 (snd last_val))
             (val0, val1)
      else sums)"
  by pat_completeness auto
termination
  by (relation "measure (\<lambda>(i, n, e, s, l). n - i)") auto

declare autodetect_loop.simps [simp del]

definition is_pak32 :: "u32 \<Rightarrow> u8 list \<Rightarrow> bool" where
  "is_pak32 nb_entries entries64 =
     (let sums = autodetect_loop 0 (min (unat nb_entries) 64) entries64 (0, 0) (0, 0)
      in fst sums < snd sums)"

subsection \<open>The rule as the specification words it\<close>

text \<open>
  For comparison with the code: the sum of the absolute differences of
  successive values of a sequence, and the selection rule that compares the
  32-bit layout's \<^verbatim>\<open>data_offset\<close> sequence with the 64-bit layout's
  \<^verbatim>\<open>data_offset\<close> sequence.
\<close>

fun sum_abs_deltas :: "nat list \<Rightarrow> nat" where
  "sum_abs_deltas (x # y # ys) = (if y > x then y - x else x - y) + sum_abs_deltas (y # ys)"
| "sum_abs_deltas _ = 0"

definition spec_is_pak32 :: "u32 \<Rightarrow> u8 list \<Rightarrow> bool" where
  "spec_is_pak32 nb_entries entries64 =
     (let n = min (unat nb_entries) 64
      in sum_abs_deltas (map (\<lambda>i. unat (data_offset32 entries64 i)) [0..<n])
           < sum_abs_deltas (map (\<lambda>i. unat (data_offset64 entries64 i)) [0..<n]))"

text \<open>
  The two sequences the code really compares: the 32-bit layout's
  \<^verbatim>\<open>data_offset\<close> fields, and the upper halves of the 64-bit layout's
  \<^verbatim>\<open>data_offset\<close> fields.
\<close>

definition offsets32 :: "u8 list \<Rightarrow> nat \<Rightarrow> nat list" where
  "offsets32 entries64 n = map (\<lambda>i. unat (data_offset32 entries64 i)) [0..<n]"

definition offsets64_high :: "u8 list \<Rightarrow> nat \<Rightarrow> nat list" where
  "offsets64_high entries64 n =
     map (\<lambda>i. unat (drop_bit 32 (data_offset64 entries64 i))) [0..<n]"

subsection \<open>Example tables\<close>

text \<open>
  A 32-bit entry and a 64-bit entry with the name stored in the clear (its
  key is all zero) and the reserved field zero.
\<close>

definition le_bytes :: "nat \<Rightarrow> nat \<Rightarrow> u8 list" where
  "le_bytes n v = map (\<lambda>i. of_nat (v div 256 ^ i)) [0..<n]"

definition entry32 :: "u8 list \<Rightarrow> nat \<Rightarrow> nat \<Rightarrow> nat \<Rightarrow> u8 list" where
  "entry32 name len off dummy =
     name @ replicate (128 - length name) 0 @ le_bytes 4 len @ replicate 20 0
       @ le_bytes 4 off @ le_bytes 4 dummy"

definition entry64 :: "u8 list \<Rightarrow> nat \<Rightarrow> nat \<Rightarrow> nat \<Rightarrow> u8 list" where
  "entry64 name len off dummy =
     name @ replicate (128 - length name) 0 @ le_bytes 4 len @ replicate 20 0
       @ le_bytes 8 off @ le_bytes 8 dummy"

text \<open>
  Scenario S1: two 32-bit entries with data offsets \<open>0\<close> and \<open>0x200\<close>.
  The buffer holds \<open>2 * 168\<close> bytes, so the 16 bytes after the two entries
  are the first bytes of the archive's data (the argument of \<open>S1_table\<close>);
  in \<open>S1_entries\<close> they are a four-byte tag followed by zeros.
\<close>

definition S1_table :: "u8 list \<Rightarrow> u8 list" where
  "S1_table data =
     entry32 [0x5C, 0x61, 0x2E, 0x74, 0x78, 0x74] 0x200 0 0
     @ entry32 [0x5C, 0x62, 0x2E, 0x74, 0x78, 0x74] 0x200 0x200 0
     @ data"

definition S1_entries :: "u8 list" where
  "S1_entries = S1_table ([0x47, 0x31, 0x54, 0x47] @ replicate 12 0)"

text \<open>A 64-bit table of two entries with data offsets \<open>0\<close> and \<open>0x200\<close>.\<close>

definition pak64_entries :: "u8 list" where
  "pak64_entries =
     entry64 [0x5C, 0x61, 0x2E, 0x74, 0x78, 0x74] 0x200 0 0
     @ entry64 [0x5C, 0x62, 0x2E, 0x74, 0x78, 0x74] 0x200 0x200 0"

section \<open>gust\_enc.c: common definitions\<close>

text \<open>
  What C leaves undefined and the code does not guard against: an access
  outside the object a pointer points into, the use of a byte of allocated
  memory that was never written, and a division by zero.  A function of the
  model that runs into one of them returns \<open>Inl\<close> of the fault; \<open>Inr\<close>
  carries the state the C function leaves behind.
\<close>

datatype fault = OutOfBounds | Uninitialised | DivisionByZero

text \<open>The failures the code reports (it prints a message and returns).\<close>

datatype error =
    SizeConstraint
  | MarkerNotFound
  | ChecksumMismatch
  | SizeMismatch
  | BitstreamTooSmall
  | BitstreamTooLarge
  | DictionaryTooLarge
  | LengthTableTooLarge
  | DecompressionOverflow

definition SEED_CONSTANT :: u32 where
  "SEED_CONSTANT = 0x3b9a73c9"

definition SEED_INCREMENT :: u32 where
  "SEED_INCREMENT = 0x2f09"



text \<open>
  Modelled from the spec: \<^verbatim>\<open>getbe32\<close> of \<^verbatim>\<open>util.h\<close>, which is not among the
  sources; the specification reads it as the big-endian 32-bit load
  (\<open>BE_u32\<close>).
\<close>

definition getbe32 :: "u8 list \<Rightarrow> nat \<Rightarrow> u32" where
  "getbe32 b off = push_bit 24 (ucast (b ! off)) OR push_bit 16 (ucast (b ! (off + 1)))
     OR push_bit 8 (ucast (b ! (off + 2))) OR ucast (b ! (off + 3))"

text \<open>
  \<^verbatim>\<open>typedef struct { uint32_t main[3]; uint32_t table[3]; uint32_t length[3];
  uint32_t fence; } seed_data;\<close>  The arrays are lists of three words.
\<close>

record seed_data =
  main_seeds :: "u32 list"
  table :: "u32 list"
  length_seeds :: "u32 list"
  fence :: u32

section \<open>gust\_enc.c: the bit-swap pass\<close>

text \<open>
  The statement \<^verbatim>\<open>seed[1] = seed[0] * seed[1] + SEED_INCREMENT\<close> that every
  scrambler step starts with.
\<close>

definition next_seed :: "u32 \<Rightarrow> u32 \<Rightarrow> u32" where
  "next_seed seed0 seed1 = seed0 * seed1 + SEED_INCREMENT"

text \<open>
  \<^verbatim>\<open>memmove(&base_table[x], &base_table[x + 1], (table_size - i - x) * 2)\<close>
  with \<open>n = table_size - i - x\<close>: elements \<open>x + 1 .. x + n\<close> move one place
  down.  In the first step of a slice (\<open>i = 0\<close>) the last element read is
  \<^verbatim>\<open>base_table[table_size]\<close>, the 16 bits that follow the table's
  allocation; the model gives that read the value \<open>past\<close>.
\<close>

definition memmove_down :: "u16 list \<Rightarrow> nat \<Rightarrow> nat \<Rightarrow> u16 \<Rightarrow> u16 list" where
  "memmove_down base_table x n past =
     take x base_table @ take n (drop (x + 1) (base_table @ [past])) @ drop (x + n) base_table"

text \<open>
  The loop that fills \<^verbatim>\<open>scrambling_table\<close>; it returns the table and the
  value it leaves in \<^verbatim>\<open>seed[1]\<close>.
\<close>

function scramble_loop ::
  "nat \<Rightarrow> nat \<Rightarrow> u32 \<Rightarrow> u32 \<Rightarrow> u16 list \<Rightarrow> u16 list \<Rightarrow> u16 \<Rightarrow> u16 list \<times> u32" where
  "scramble_loop i table_size seed0 seed1 base_table scrambling_table past =
     (if i < table_size then
        let seed1' = next_seed seed0 seed1;
            x = unat (drop_bit 16 seed1' AND 0x7FFF) mod (table_size - i)
        in scramble_loop (i + 1) table_size seed0 seed1'
             (memmove_down base_table x (table_size - i - x) past)
             (scrambling_table[i := base_table ! x]) past
      else (scrambling_table, seed1))"
  by pat_completeness auto
termination
  by (relation "measure (\<lambda>(i, table_size, s0, s1, b, t, p). table_size - i)") auto

declare scramble_loop.simps [simp del]

text \<open>
  The body of the swap loop for one pair of table entries \<open>s0 = scrambling_table[i]\<close>
  and \<open>s1 = scrambling_table[i + 1]\<close>: the bits at \<open>p0.b0\<close> and \<open>p1.b1\<close> of
  the slice that starts at offset \<open>chunk\<close> of the buffer \<open>mem\<close> change
  places.  \<open>p0\<close> and \<open>p1\<close> are \<^verbatim>\<open>uint8_t\<close>.
\<close>

definition swap_bits :: "u8 list \<Rightarrow> nat \<Rightarrow> u16 \<Rightarrow> u16 \<Rightarrow> fault + u8 list" where
  "swap_bits mem chunk s0 s1 =
     (let p0 = chunk + unat (ucast (drop_bit 3 s0) :: u8);
          b0 = unat (ucast (s0 AND 7) :: u8);
          p1 = chunk + unat (ucast (drop_bit 3 s1) :: u8);
          b1 = unat (ucast (s1 AND 7) :: u8)
      in if p0 < length mem \<and> p1 < length mem then
           let v0 = drop_bit b0 (mem ! p0 AND push_bit b0 1);
               v1 = drop_bit b1 (mem ! p1 AND push_bit b1 1);
               mem1 = mem[p0 := mem ! p0 AND NOT (push_bit b0 1)];
               mem2 = mem1[p0 := mem1 ! p0 OR push_bit b0 v1];
               mem3 = mem2[p1 := mem2 ! p1 AND NOT (push_bit b1 1)];
               mem4 = mem3[p1 := mem3 ! p1 OR push_bit b1 v0]
           in Inr mem4
         else Inl OutOfBounds)"

text \<open>
  \<^verbatim>\<open>for (i = 0; i < min(table_size, chunk_size << 3); i += 2)\<close>, with
  \<open>n\<close> the bound.
\<close>

function swap_loop :: "nat \<Rightarrow> nat \<Rightarrow> u16 list \<Rightarrow> nat \<Rightarrow> u8 list \<Rightarrow> fault + u8 list" where
  "swap_loop i n scrambling_table chunk mem =
     (if i < n then
        case swap_bits mem chunk (scrambling_table ! i) (scrambling_table ! (i + 1)) of
          Inl f \<Rightarrow> Inl f
        | Inr mem' \<Rightarrow> swap_loop (i + 2) n scrambling_table chunk mem'
      else Inr mem)"
  by pat_completeness auto
termination
  by (relation "measure (\<lambda>(i, n, t, c, m). n - i)") auto

declare swap_loop.simps [simp del]

text \<open>
  The \<^verbatim>\<open>while (chunk < max_chunk)\<close> loop.  \<open>chunk\<close> and \<open>max_chunk\<close> are
  offsets into \<open>mem\<close>; \<open>chunk_size\<close> is the \<^verbatim>\<open>uint32_t\<close> the loop counts
  down, wrapping.  The loop is only reached with \<open>table_size \<ge> 4\<close>, that is
  with a slice size that is not zero; the guard repeats this, since the loop
  ends only because each round moves \<open>chunk\<close> forward.
\<close>

function slices_loop ::
  "u8 list \<Rightarrow> nat \<Rightarrow> nat \<Rightarrow> nat \<Rightarrow> u32 \<Rightarrow> u32 \<Rightarrow> nat \<Rightarrow> u16 \<Rightarrow> fault + u8 list \<times> u32" where
  "slices_loop mem chunk max_chunk chunk_size seed0 seed1 slice_size past =
     (if chunk < max_chunk \<and> 0 < slice_size then
        let table_size = slice_size * 8;
            base_table = map of_nat [0..<table_size];
            (scrambling_table, seed1') =
               scramble_loop 0 table_size seed0 seed1 base_table (replicate table_size 0) past
        in case swap_loop 0 (min table_size ((chunk_size * 8) mod 2 ^ 32)) scrambling_table chunk mem of
             Inl f \<Rightarrow> Inl f
           | Inr mem' \<Rightarrow>
               slices_loop mem' (chunk + slice_size) max_chunk
                 ((chunk_size + 2 ^ 32 - slice_size) mod 2 ^ 32) seed0 seed1' slice_size past
      else Inr (mem, seed1))"
  by pat_completeness auto
termination
  by (relation "measure (\<lambda>(m, chunk, max_chunk, r). max_chunk - chunk)") auto

declare slices_loop.simps [simp del]

text \<open>
  \<^verbatim>\<open>static bool descramble_chunk(uint8_t* chunk, uint32_t chunk_size,
  uint32_t seed[2], uint16_t slice_size)\<close>.  The pointer \<^verbatim>\<open>chunk\<close> is the
  offset \<open>chunk\<close> into the buffer \<open>mem\<close>; \<open>slice_size\<close> is below \<open>2 ^ 16\<close>
  and \<open>chunk_size\<close> below \<open>2 ^ 32\<close>.  The result is the returned flag, the
  buffer and \<^verbatim>\<open>seed[1]\<close>.  The two tables are taken to be allocated.
\<close>

definition descramble_chunk ::
  "u8 list \<Rightarrow> nat \<Rightarrow> nat \<Rightarrow> u32 \<times> u32 \<Rightarrow> nat \<Rightarrow> u16 \<Rightarrow> fault + bool \<times> u8 list \<times> u32" where
  "descramble_chunk mem chunk chunk_size seed slice_size past =
     (if slice_size * 8 < 4 then Inr (False, mem, snd seed)
      else case slices_loop mem chunk (chunk + chunk_size) chunk_size (fst seed) (snd seed)
                  slice_size past of
             Inl f \<Rightarrow> Inl f
           | Inr (mem', seed1') \<Rightarrow> Inr (True, mem', seed1'))"

section \<open>gust\_enc.c: the two descramblers\<close>

text \<open>
  In both descramblers the argument \<^verbatim>\<open>buf_size\<close> is the number of bytes at
  \<^verbatim>\<open>buf\<close>: the model takes the buffer as a list and reads \<^verbatim>\<open>buf_size\<close>
  off its length.  Sizes and indices are natural numbers; none of the
  \<^verbatim>\<open>uint32_t\<close> operations on them below can wrap for a buffer of fewer
  than \<open>2 ^ 32 - 1\<close> bytes.  \<open>past\<close> is handed on to the bit-swap pass.
\<close>

subsection \<open>descrambler1\<close>




subsection \<open>descrambler2\<close>

text \<open>
  \<^verbatim>\<open>for ( ; (buf_size > 0) && (buf[buf_size] != 0xff); buf_size--);\<close>
\<close>

function marker_scan :: "u8 list \<Rightarrow> nat \<Rightarrow> nat" where
  "marker_scan buf buf_size =
     (if buf_size > 0 \<and> buf ! buf_size \<noteq> 0xff then marker_scan buf (buf_size - 1)
      else buf_size)"
  by pat_completeness auto
termination
  by (relation "measure (\<lambda>(buf, buf_size). buf_size)") auto

declare marker_scan.simps [simp del]

text \<open>
  The byte loop \<^verbatim>\<open>for (i = 0; i < buf_size; i++)\<close>, where \<^verbatim>\<open>buf_size\<close> is
  by now the index of the marker.  \<^verbatim>\<open>seeds->table\<close> is written through
  the pointer, so the loop returns the seed structure with the buffer.
  \<^verbatim>\<open>array_size(seeds->table)\<close> is 3.
\<close>

function d2_loop ::
  "nat \<Rightarrow> nat \<Rightarrow> u8 list \<Rightarrow> u32 \<Rightarrow> u32 \<Rightarrow> seed_data \<Rightarrow> nat \<Rightarrow> u32 \<Rightarrow> u32
     \<Rightarrow> u8 list \<times> seed_data" where
  "d2_loop i buf_size buf seed0 seed1 seeds seed_index seed_switch_fudge processed_for_this_seed =
     (if i < buf_size then
        let seed1' = next_seed seed0 seed1;
            buf' = buf[i := buf ! i XOR ucast (drop_bit 16 seed1')];
            processed' = processed_for_this_seed + 1
        in if processed' \<ge> length_seeds seeds ! seed_index + seed_switch_fudge then
             let seeds' = seeds\<lparr>table := (table seeds)[seed_index := seed1']\<rparr>;
                 wrapped = (seed_index + 1 \<ge> 3);
                 seed_index' = (if wrapped then 0 else seed_index + 1);
                 fudge' = (if wrapped then seed_switch_fudge + 1 else seed_switch_fudge)
             in d2_loop (i + 1) buf_size buf' seed0 (table seeds' ! seed_index') seeds'
                  seed_index' fudge' 0
           else d2_loop (i + 1) buf_size buf' seed0 seed1' seeds seed_index seed_switch_fudge
                  processed'
      else (buf, seeds))"
  by pat_completeness auto
termination
  by (relation "measure (\<lambda>(i, buf_size, r). buf_size - i)") auto

declare d2_loop.simps [simp del]

text \<open>
  \<^verbatim>\<open>for (i = 0; i < buf_size; i += sizeof(uint32_t))\<close> with the two running
  checksums.
\<close>

function checksum_loop :: "nat \<Rightarrow> nat \<Rightarrow> u8 list \<Rightarrow> u32 \<times> u32 \<Rightarrow> u32 \<times> u32" where
  "checksum_loop i buf_size buf computed_checksum =
     (if i < buf_size then
        checksum_loop (i + 4) buf_size buf
          (fst computed_checksum XOR NOT (getbe32 buf i), snd computed_checksum - getbe32 buf i)
      else computed_checksum)"
  by pat_completeness auto
termination
  by (relation "measure (\<lambda>(i, buf_size, r). buf_size - i)") auto

declare checksum_loop.simps [simp del]

text \<open>
  \<^verbatim>\<open>static bool descrambler2(uint8_t* buf, uint32_t buf_size, seed_data* seeds)\<close>.
  The result names the failure reported (\<open>None\<close> for \<^verbatim>\<open>return true\<close>) and
  gives the buffer and the seed structure as the call leaves them.
  \<open>marker\<close> is the value of \<^verbatim>\<open>buf_size\<close> after the scan for the end marker;
  \<^verbatim>\<open>buf_size &= ~3\<close> clears its two low bits.
\<close>

definition descrambler2 ::
  "u8 list \<Rightarrow> seed_data \<Rightarrow> u16 \<Rightarrow> fault + error option \<times> u8 list \<times> seed_data" where
  "descrambler2 buf seeds past =
     (let buf_size = length buf
      in if buf_size mod 4 \<noteq> 0 \<or> buf_size < 16 then Inr (Some SizeConstraint, buf, seeds)
         else
           let seed0 = getbe32 buf (buf_size - 4) + SEED_CONSTANT;
               file_checksum0 = getbe32 buf (buf_size - 8);
               file_checksum1 = getbe32 buf (buf_size - 12);
               marker = marker_scan buf (buf_size - 13)
           in if marker < 4 \<or> buf ! marker \<noteq> 0xff then Inr (Some MarkerNotFound, buf, seeds)
              else
                let (buf1, seeds1) = d2_loop 0 marker buf seed0 (table seeds ! 0) seeds 0 0 0;
                    buf2 = buf1[marker := 0];
                    n = marker - marker mod 4;
                    computed_checksum = checksum_loop 0 n buf2 (0, 0)
                in if fst computed_checksum \<noteq> file_checksum0
                      \<or> snd computed_checksum \<noteq> file_checksum1
                   then Inr (Some ChecksumMismatch, buf2, seeds1)
                   else case descramble_chunk buf2 0 (min n 0x800)
                               (seed0, main_seeds seeds1 ! 2) 0x80 past of
                          Inl f \<Rightarrow> Inl f
                        | Inr (ok, buf3, seed1) \<Rightarrow> Inr (None, buf3, seeds1))"

subsection \<open>Reading a descrambler2 result\<close>

text \<open>\<open>reports r e\<close>: the call returned \<^verbatim>\<open>false\<close> after printing the message of \<open>e\<close>.\<close>

definition reports :: "fault + error option \<times> u8 list \<times> seed_data \<Rightarrow> error \<Rightarrow> bool" where
  "reports r e = (case r of Inl f \<Rightarrow> False | Inr (e', buf, seeds) \<Rightarrow> e' = Some e)"

text \<open>The buffer and the seed structure the call leaves behind, when it returns.\<close>

definition buffer_after :: "fault + error option \<times> u8 list \<times> seed_data \<Rightarrow> u8 list option" where
  "buffer_after r = (case r of Inl f \<Rightarrow> None | Inr (e, buf, seeds) \<Rightarrow> Some buf)"

definition seeds_after :: "fault + error option \<times> u8 list \<times> seed_data \<Rightarrow> seed_data option" where
  "seeds_after r = (case r of Inl f \<Rightarrow> None | Inr (e, buf, seeds) \<Rightarrow> Some seeds)"

text \<open>
  The 32-bit big-endian words of \<open>buf[0..n]\<close>, and the checksum pair as the
  specification words it: \<open>c0\<close> is the running XOR of the complements and
  \<open>c1\<close> the running wrapping subtraction, both from 0.
\<close>

definition be_words :: "u8 list \<Rightarrow> nat \<Rightarrow> u32 list" where
  "be_words buf n = map (\<lambda>j. getbe32 buf (4 * j)) [0..<n div 4]"

definition checksum_pair :: "u32 list \<Rightarrow> u32 \<times> u32" where
  "checksum_pair ws = (fold (\<lambda>w c. c XOR NOT w) ws 0, fold (\<lambda>w c. c - w) ws 0)"

text \<open>
  The state descrambler2 has reached when it leaves the byte loop: the
  marker index, and the buffer and the seed structure as the loop leaves
  them.
\<close>

definition d2_marker :: "u8 list \<Rightarrow> nat" where
  "d2_marker buf = marker_scan buf (length buf - 13)"

definition d2_xor :: "u8 list \<Rightarrow> seed_data \<Rightarrow> u8 list" where
  "d2_xor buf seeds =
     fst (d2_loop 0 (d2_marker buf) buf (getbe32 buf (length buf - 4) + SEED_CONSTANT)
            (table seeds ! 0) seeds 0 0 0)"

definition d2_seeds :: "u8 list \<Rightarrow> seed_data \<Rightarrow> seed_data" where
  "d2_seeds buf seeds =
     snd (d2_loop 0 (d2_marker buf) buf (getbe32 buf (length buf - 4) + SEED_CONSTANT)
            (table seeds ! 0) seeds 0 0 0)"

text \<open>
  The seed switches of the byte loop as the specification words them
  (section 4.5, step 4), a segment at a time.  A segment works with one
  index of \<^verbatim>\<open>seeds.table\<close>: it starts from the state held there and lasts
  until the per-seed counter reaches \<open>length[seed_index] + fudge\<close>, a 32-bit
  sum, which takes at least one byte.  On its last byte the running state,
  drawn once per byte of the segment, is stored into
  \<^verbatim>\<open>seeds.table[seed_index]\<close>; the next segment works with the next index,
  and \<open>fudge\<close> grows by one when the index wraps.  \<open>seeds_switched m\<close> is
  the seed structure after \<open>m\<close> bytes; a segment the \<open>m\<close> bytes do not
  complete stores nothing.
\<close>

definition segment_length :: "seed_data \<Rightarrow> nat \<Rightarrow> u32 \<Rightarrow> nat" where
  "segment_length seeds seed_index fudge =
     max 1 (unat (length_seeds seeds ! seed_index + fudge))"

function seeds_switched :: "nat \<Rightarrow> u32 \<Rightarrow> seed_data \<Rightarrow> nat \<Rightarrow> u32 \<Rightarrow> seed_data" where
  "seeds_switched m seed0 seeds seed_index fudge =
     (let k = segment_length seeds seed_index fudge
      in if k \<le> m then
           let seeds' = seeds\<lparr>table := (table seeds)
                          [seed_index := (next_seed seed0 ^^ k) (table seeds ! seed_index)]\<rparr>;
               wrapped = (seed_index + 1 \<ge> 3)
           in seeds_switched (m - k) seed0 seeds'
                (if wrapped then 0 else seed_index + 1) (if wrapped then fudge + 1 else fudge)
         else seeds)"
  by pat_completeness auto
termination
  by (relation "measure (\<lambda>(m, r). m)") (auto simp: segment_length_def)

declare seeds_switched.simps [simp del]

text \<open>Inputs for the scenarios of descrambler2.\<close>

definition seeds_example :: seed_data where
  "seeds_example =
     \<lparr>main_seeds = [0x12345678, 0x0BADCAFE, 0x00C0FFEE], table = [0, 0, 0],
      length_seeds = [1, 1, 1], fence = 0x100\<rparr>"

text \<open>
  Twenty bytes whose last thirteen (indices 7 to 19) hold no \<open>0xFF\<close>, with
  a \<open>0xFF\<close> at index 6.
\<close>

definition S4_like :: "u8 list" where
  "S4_like = [0, 0, 0, 0, 0, 0, 0xFF, 0, 0, 0, 0, 0, 0, 0, 0, 0, 0, 0, 0, 0]"

text \<open>
  144 bytes with the marker at index 5 whose stored checksums are those of
  the decoded word; the buffer holds the one \<open>0x80\<close>-byte slice of the
  final bit-swap pass.
\<close>

definition D2_long :: "u8 list" where
  "D2_long = [0x11, 0x22, 0x33, 0x44, 0x55, 0xFF] @ replicate 126 0
               @ [0xEE, 0xDD, 0xCC, 0x0C, 0xEE, 0xDD, 0xCC, 0x0B, 0, 0, 0, 0]"

section \<open>gust\_enc.c: the Glaze decompressor\<close>

subsection \<open>The bit reader\<close>

text \<open>
  \<^verbatim>\<open>typedef struct { uint8_t* buffer; uint32_t size; uint32_t pos;
  int getbits_buffer; int getbits_mask; } getbits_ctx;\<close>  The field
  \<open>ctx_buffer\<close> holds the memory from the pointer \<^verbatim>\<open>ctx.buffer\<close> to the end
  of the object it points into; \<open>ctx_size\<close> is the number of bytes the reader
  may consume.  The two \<^verbatim>\<open>int\<close> fields only ever hold a byte.
\<close>

record getbits_ctx =
  ctx_buffer :: "u8 list"
  ctx_size :: nat
  ctx_pos :: nat
  getbits_buffer :: u8
  getbits_mask :: u8

text \<open>\<^verbatim>\<open>(uint32_t)EOF\<close>, with \<^verbatim>\<open>EOF\<close> the \<open>-1\<close> of \<^verbatim>\<open>stdio.h\<close>.\<close>

definition EOF32 :: u32 where
  "EOF32 = 0xFFFFFFFF"

text \<open>
  The loop of \<^verbatim>\<open>getbits\<close> over the \<open>n\<close> bits still to read, with the
  accumulator \<open>x\<close>.
\<close>

fun getbits_loop :: "nat \<Rightarrow> getbits_ctx \<Rightarrow> u32 \<Rightarrow> fault + u32 \<times> getbits_ctx" where
  "getbits_loop 0 ctx x = Inr (x, ctx)"
| "getbits_loop (Suc n) ctx x =
     (if getbits_mask ctx = 0 \<and> ctx_pos ctx \<ge> ctx_size ctx then Inr (EOF32, ctx)
      else if getbits_mask ctx = 0 \<and> ctx_pos ctx \<ge> length (ctx_buffer ctx) then Inl OutOfBounds
      else
        let ctx1 = (if getbits_mask ctx = 0
                    then ctx\<lparr>getbits_buffer := ctx_buffer ctx ! ctx_pos ctx, ctx_pos := ctx_pos ctx + 1,
                               getbits_mask := 0x80\<rparr>
                    else ctx);
            x1 = push_bit 1 x;
            x2 = (if getbits_buffer ctx1 AND getbits_mask ctx1 \<noteq> 0 then x1 + 1 else x1);
            ctx2 = ctx1\<lparr>getbits_mask := drop_bit 1 (getbits_mask ctx1)\<rparr>
        in getbits_loop n ctx2 x2)"

definition getbits :: "getbits_ctx \<Rightarrow> nat \<Rightarrow> fault + u32 \<times> getbits_ctx" where
  "getbits ctx n = getbits_loop n ctx 0"

subsection \<open>Opcode-table recovery\<close>

text \<open>
  \<^verbatim>\<open>while ((++code_len < 8) && ((c = getbits(&ctx, 1)) == 0));\<close>  The result
  is \<open>code_len\<close>, \<open>c\<close> and the reader.
\<close>

function prefix_loop :: "nat \<Rightarrow> u32 \<Rightarrow> getbits_ctx \<Rightarrow> fault + nat \<times> u32 \<times> getbits_ctx" where
  "prefix_loop code_len c ctx =
     (if code_len + 1 < 8 then
        case getbits ctx 1 of
          Inl f \<Rightarrow> Inl f
        | Inr (c', ctx') \<Rightarrow>
            if c' = 0 then prefix_loop (code_len + 1) c' ctx'
            else Inr (code_len + 1, c', ctx')
      else Inr (code_len + 1, c, ctx))"
  by pat_completeness auto
termination
  by (relation "measure (\<lambda>(code_len, c, ctx). 8 - code_len)") auto

declare prefix_loop.simps [simp del]

text \<open>
  The body of the \<^verbatim>\<open>for\<close> loop of \<^verbatim>\<open>build_code_table\<close> for one index \<open>i\<close>,
  given the bit \<open>c\<close> read for it.  \<open>None\<close> stands for \<^verbatim>\<open>break\<close>; otherwise
  the result is the table with \<^verbatim>\<open>code_table[i]\<close> written, and the reader.
  The table is allocated with \<^verbatim>\<open>malloc\<close>: a byte never written is \<open>None\<close>.
\<close>

definition code_step ::
  "nat \<Rightarrow> u32 \<Rightarrow> getbits_ctx \<Rightarrow> u8 option list
     \<Rightarrow> fault + (u8 option list \<times> getbits_ctx) option" where
  "code_step i c ctx code_table =
     (if c = EOF32 then Inr None
      else if c = 1 then Inr (Some (code_table[i := Some 1], ctx))
      else
        case prefix_loop 0 c ctx of
          Inl f \<Rightarrow> Inl f
        | Inr (code_len, c', ctx') \<Rightarrow>
            if c' = EOF32 then Inr None
            else if code_len < 8 then
              case getbits ctx' code_len of
                Inl f \<Rightarrow> Inl f
              | Inr (v, ctx'') \<Rightarrow>
                  Inr (Some (code_table[i := Some (ucast (push_bit code_len c' OR v))], ctx''))
            else Inr (Some (code_table[i := Some 0], ctx')))"

text \<open>
  \<^verbatim>\<open>for (c = getbits(&ctx, 1), i = 0; i < *code_table_length;
  c = getbits(&ctx, 1), i++)\<close>
\<close>

function code_loop ::
  "nat \<Rightarrow> nat \<Rightarrow> u32 \<Rightarrow> getbits_ctx \<Rightarrow> u8 option list \<Rightarrow> fault + u8 option list" where
  "code_loop i code_table_length c ctx code_table =
     (if i < code_table_length then
        case code_step i c ctx code_table of
          Inl f \<Rightarrow> Inl f
        | Inr None \<Rightarrow> Inr code_table
        | Inr (Some (code_table', ctx')) \<Rightarrow>
            (case getbits ctx' 1 of
               Inl f \<Rightarrow> Inl f
             | Inr (c', ctx'') \<Rightarrow> code_loop (i + 1) code_table_length c' ctx'' code_table')
      else Inr code_table)"
  by pat_completeness auto
termination
  by (relation "measure (\<lambda>(i, n, r). n - i)") auto

declare code_loop.simps [simp del]

text \<open>
  \<^verbatim>\<open>static uint8_t* build_code_table(uint8_t* bitstream, uint32_t
  bitstream_length, uint32_t* code_table_length)\<close>.  \<open>bitstream\<close> is the memory
  from the pointer to the end of the source buffer.  The result is
  \<^verbatim>\<open>*code_table_length\<close> and the table; the allocation is taken to succeed.
\<close>

definition build_code_table :: "u8 list \<Rightarrow> u32 \<Rightarrow> fault + u32 \<times> u8 option list" where
  "build_code_table bitstream bitstream_length =
     (if length bitstream < 4 then Inl OutOfBounds
      else
        let code_table_length = getbe32 bitstream 0;
            code_table = replicate (unat code_table_length) None;
            ctx = \<lparr>ctx_buffer = drop 4 bitstream, ctx_size = unat (bitstream_length - 4), ctx_pos = 0,
                   getbits_buffer = 0, getbits_mask = 0\<rparr>
        in case getbits ctx 1 of
             Inl f \<Rightarrow> Inl f
           | Inr (c, ctx') \<Rightarrow>
               (case code_loop 0 (unat code_table_length) c ctx' code_table of
                  Inl f \<Rightarrow> Inl f
                | Inr code_table' \<Rightarrow> Inr (code_table_length, code_table')))"

subsection \<open>Execution\<close>

text \<open>
  The cursors of \<^verbatim>\<open>unglaze\<close>: \<open>code_pos\<close> is \<^verbatim>\<open>code\<close> as an index into
  the opcode table, \<open>dict_pos\<close> and \<open>len_pos\<close> are \<^verbatim>\<open>dict\<close> and \<^verbatim>\<open>len\<close>
  as offsets into the source buffer, and \<open>dst_bytes\<close> is the list of the
  bytes stored through \<^verbatim>\<open>dst\<close> so far, so that the pointer stands at its
  length.  The code compares \<^verbatim>\<open>dst\<close> with \<^verbatim>\<open>dst_max\<close>
  only at the head of its loop; the stores of one opcode are recorded as
  they are made, and those at an index from \<^verbatim>\<open>dst_length\<close> on land behind
  the caller's buffer.
\<close>

record glaze_state =
  code_pos :: nat
  dict_pos :: nat
  len_pos :: nat
  dst_bytes :: "u8 list"

definition read_code :: "u8 option list \<Rightarrow> nat \<Rightarrow> fault + u8" where
  "read_code code_table i =
     (if i < length code_table then
        (case code_table ! i of None \<Rightarrow> Inl Uninitialised | Some b \<Rightarrow> Inr b)
      else Inl OutOfBounds)"

definition read_src :: "u8 list \<Rightarrow> nat \<Rightarrow> fault + u8" where
  "read_src src i = (if i < length src then Inr (src ! i) else Inl OutOfBounds)"

text \<open>
  \<^verbatim>\<open>for (int i = n; i > 0; i--) *dst++ = dst[-d];\<close>  The byte read is the one
  \<open>d\<close> places before the store, as the comments of the code have it
  (``from pos -d''); with \<open>d = 0\<close> it is the byte about to be written.
\<close>

fun copy_back :: "nat \<Rightarrow> nat \<Rightarrow> u8 list \<Rightarrow> fault + u8 list" where
  "copy_back 0 d out = Inr out"
| "copy_back (Suc n) d out =
     (if d = 0 then Inl Uninitialised
      else if d > length out then Inl OutOfBounds
      else copy_back n d (out @ [out ! (length out - d)]))"

text \<open>\<^verbatim>\<open>for (int i = n; i > 0; i--) *dst++ = *dict++;\<close>\<close>

fun copy_dict :: "nat \<Rightarrow> u8 list \<Rightarrow> nat \<Rightarrow> u8 list \<Rightarrow> fault + nat \<times> u8 list" where
  "copy_dict 0 src dp out = Inr (dp, out)"
| "copy_dict (Suc n) src dp out =
     (case read_src src dp of
        Inl f \<Rightarrow> Inl f
      | Inr b \<Rightarrow> copy_dict n src (dp + 1) (out @ [b]))"

text \<open>
  The seven cases of \<^verbatim>\<open>switch (*code++)\<close>, each on the state in which
  \<^verbatim>\<open>code\<close> has already moved past the opcode.
\<close>

definition case_0x01 :: "u8 list \<Rightarrow> u8 option list \<Rightarrow> glaze_state \<Rightarrow> fault + glaze_state" where
  "case_0x01 src code_table st =
     (case copy_dict 1 src (dict_pos st) (dst_bytes st) of
        Inl f \<Rightarrow> Inl f
      | Inr (dict', dst') \<Rightarrow> Inr (st\<lparr>dict_pos := dict', dst_bytes := dst'\<rparr>))"

definition case_0x02 :: "u8 list \<Rightarrow> u8 option list \<Rightarrow> glaze_state \<Rightarrow> fault + glaze_state" where
  "case_0x02 src code_table st =
     (case read_code code_table (code_pos st) of
        Inl f \<Rightarrow> Inl f
      | Inr d \<Rightarrow>
          (case copy_back 1 (unat d) (dst_bytes st) of
             Inl f \<Rightarrow> Inl f
           | Inr dst' \<Rightarrow> Inr (st\<lparr>code_pos := code_pos st + 1, dst_bytes := dst'\<rparr>)))"

definition case_0x03 :: "u8 list \<Rightarrow> u8 option list \<Rightarrow> glaze_state \<Rightarrow> fault + glaze_state" where
  "case_0x03 src code_table st =
     (case read_code code_table (code_pos st) of
        Inl f \<Rightarrow> Inl f
      | Inr d \<Rightarrow>
          (case read_code code_table (code_pos st + 1) of
             Inl f \<Rightarrow> Inl f
           | Inr l \<Rightarrow>
               (case copy_back (unat l + 1) (unat d + unat l) (dst_bytes st) of
                  Inl f \<Rightarrow> Inl f
                | Inr dst' \<Rightarrow> Inr (st\<lparr>code_pos := code_pos st + 2, dst_bytes := dst'\<rparr>))))"

definition case_0x04 :: "u8 list \<Rightarrow> u8 option list \<Rightarrow> glaze_state \<Rightarrow> fault + glaze_state" where
  "case_0x04 src code_table st =
     (case read_code code_table (code_pos st) of
        Inl f \<Rightarrow> Inl f
      | Inr l \<Rightarrow>
          (case read_src src (dict_pos st) of
             Inl f \<Rightarrow> Inl f
           | Inr d0 \<Rightarrow>
               (case copy_back (unat l + 1) (unat d0 + unat l) (dst_bytes st) of
                  Inl f \<Rightarrow> Inl f
                | Inr dst' \<Rightarrow>
                    Inr (st\<lparr>code_pos := code_pos st + 1, dict_pos := dict_pos st + 1,
                            dst_bytes := dst'\<rparr>))))"

definition case_0x05 :: "u8 list \<Rightarrow> u8 option list \<Rightarrow> glaze_state \<Rightarrow> fault + glaze_state" where
  "case_0x05 src code_table st =
     (case read_code code_table (code_pos st) of
        Inl f \<Rightarrow> Inl f
      | Inr dhi \<Rightarrow>
          (case read_src src (dict_pos st) of
             Inl f \<Rightarrow> Inl f
           | Inr dlo \<Rightarrow>
               (case read_code code_table (code_pos st + 1) of
                  Inl f \<Rightarrow> Inl f
                | Inr l \<Rightarrow>
                    (case copy_back (unat l + 1) (unat dhi * 256 + unat dlo + unat l)
                            (dst_bytes st) of
                       Inl f \<Rightarrow> Inl f
                     | Inr dst' \<Rightarrow>
                         Inr (st\<lparr>code_pos := code_pos st + 2, dict_pos := dict_pos st + 1,
                                 dst_bytes := dst'\<rparr>)))))"

definition case_0x06 :: "u8 list \<Rightarrow> u8 option list \<Rightarrow> glaze_state \<Rightarrow> fault + glaze_state" where
  "case_0x06 src code_table st =
     (case read_code code_table (code_pos st) of
        Inl f \<Rightarrow> Inl f
      | Inr l \<Rightarrow>
          (case copy_dict (unat l + 8) src (dict_pos st) (dst_bytes st) of
             Inl f \<Rightarrow> Inl f
           | Inr (dict', dst') \<Rightarrow>
               Inr (st\<lparr>code_pos := code_pos st + 1, dict_pos := dict', dst_bytes := dst'\<rparr>)))"

definition case_0x07 :: "u8 list \<Rightarrow> u8 option list \<Rightarrow> glaze_state \<Rightarrow> fault + glaze_state" where
  "case_0x07 src code_table st =
     (case read_src src (len_pos st) of
        Inl f \<Rightarrow> Inl f
      | Inr l \<Rightarrow>
          (case copy_dict (unat l + 14) src (dict_pos st) (dst_bytes st) of
             Inl f \<Rightarrow> Inl f
           | Inr (dict', dst') \<Rightarrow>
               Inr (st\<lparr>len_pos := len_pos st + 1, dict_pos := dict', dst_bytes := dst'\<rparr>)))"

text \<open>
  \<^verbatim>\<open>switch (*code++) { ... }\<close>: one opcode.  The \<^verbatim>\<open>switch\<close> has no
  \<^verbatim>\<open>default\<close>, so a byte that is not one of its seven cases only moves
  \<^verbatim>\<open>code\<close>.
\<close>

definition unglaze_step :: "u8 list \<Rightarrow> u8 option list \<Rightarrow> glaze_state \<Rightarrow> fault + glaze_state" where
  "unglaze_step src code_table st =
     (case read_code code_table (code_pos st) of
        Inl f \<Rightarrow> Inl f
      | Inr opcode \<Rightarrow>
          let st1 = st\<lparr>code_pos := code_pos st + 1\<rparr>
          in if opcode = 0x01 then case_0x01 src code_table st1
             else if opcode = 0x02 then case_0x02 src code_table st1
             else if opcode = 0x03 then case_0x03 src code_table st1
             else if opcode = 0x04 then case_0x04 src code_table st1
             else if opcode = 0x05 then case_0x05 src code_table st1
             else if opcode = 0x06 then case_0x06 src code_table st1
             else if opcode = 0x07 then case_0x07 src code_table st1
             else Inr st1)"

lemma case_code_mono:
  "case_0x01 src code_table st = Inr st' \<Longrightarrow> code_pos st \<le> code_pos st'"
  "case_0x02 src code_table st = Inr st' \<Longrightarrow> code_pos st \<le> code_pos st'"
  "case_0x03 src code_table st = Inr st' \<Longrightarrow> code_pos st \<le> code_pos st'"
  "case_0x04 src code_table st = Inr st' \<Longrightarrow> code_pos st \<le> code_pos st'"
  "case_0x05 src code_table st = Inr st' \<Longrightarrow> code_pos st \<le> code_pos st'"
  "case_0x06 src code_table st = Inr st' \<Longrightarrow> code_pos st \<le> code_pos st'"
  "case_0x07 src code_table st = Inr st' \<Longrightarrow> code_pos st \<le> code_pos st'"
  unfolding case_0x01_def case_0x02_def case_0x03_def case_0x04_def case_0x05_def
    case_0x06_def case_0x07_def
  by (auto split: sum.splits prod.splits)

lemma unglaze_step_code:
  assumes "unglaze_step src code_table st = Inr st'"
  shows "code_pos st < code_pos st'"
proof -
  obtain opcode where "read_code code_table (code_pos st) = Inr opcode"
    using assms by (auto simp: unglaze_step_def split: sum.splits)
  with assms have "code_pos (st\<lparr>code_pos := code_pos st + 1\<rparr>) \<le> code_pos st'"
    by (auto simp: unglaze_step_def Let_def split: if_splits dest: case_code_mono)
  then show ?thesis
    by simp
qed

text \<open>
  The \<^verbatim>\<open>while (dst < dst_max)\<close> loop with its sanity check.  The result
  names the failure reported, if any, and gives the bytes stored.
\<close>

function unglaze_loop ::
  "u8 list \<Rightarrow> u8 option list \<Rightarrow> nat \<Rightarrow> nat \<Rightarrow> nat \<Rightarrow> nat \<Rightarrow> glaze_state
     \<Rightarrow> fault + error option \<times> u8 list" where
  "unglaze_loop src code_table max_dict max_len max_code dst_max st =
     (if length (dst_bytes st) < dst_max then
        if dict_pos st > max_dict \<or> len_pos st > max_len \<or> code_pos st > max_code
        then Inr (Some DecompressionOverflow, dst_bytes st)
        else case unglaze_step src code_table st of
               Inl f \<Rightarrow> Inl f
             | Inr st' \<Rightarrow> unglaze_loop src code_table max_dict max_len max_code dst_max st'
      else Inr (None, dst_bytes st))"
  by pat_completeness auto
termination
  by (relation "measure (\<lambda>(src, code_table, max_dict, max_len, max_code, dst_max, st).
                            max_code + 1 - code_pos st)")
    (auto dest: unglaze_step_code)

declare unglaze_loop.simps [simp del]

text \<open>
  \<^verbatim>\<open>static uint32_t unglaze(uint8_t* src, uint32_t src_length, uint8_t* dst,
  uint32_t dst_length)\<close>.  \<^verbatim>\<open>src_length\<close> is the number of bytes at
  \<^verbatim>\<open>src\<close>, read off the list.  The result names the failure reported, if
  any, and gives the value returned and the bytes stored through \<^verbatim>\<open>dst\<close>;
  the caller takes a returned value equal to \<^verbatim>\<open>dst_length\<close> for success.
\<close>

definition unglaze :: "u8 list \<Rightarrow> u32 \<Rightarrow> fault + error option \<times> u32 \<times> u8 list" where
  "unglaze src dst_length =
     (if length src < 8 then Inl OutOfBounds
      else
        let src_length = (of_nat (length src) :: u32);
            dec_length = getbe32 src 0
        in if dec_length \<noteq> dst_length then Inr (Some SizeMismatch, dec_length, [])
           else
             let bitstream_length = getbe32 src 4
             in if bitstream_length \<le> 4 then Inr (Some BitstreamTooSmall, 0, [])
                else
                  let chk_length = bitstream_length + 4
                  in if chk_length \<ge> src_length then Inr (Some BitstreamTooLarge, 0, [])
                     else
                       case build_code_table (drop 8 src) bitstream_length of
                         Inl f \<Rightarrow> Inl f
                       | Inr (code_len, code_table) \<Rightarrow>
                           let dict_len_at = 8 + unat bitstream_length
                           in if length src < dict_len_at + 4 then Inl OutOfBounds
                              else
                                let dict_len = getbe32 src dict_len_at;
                                    dict_start = dict_len_at + 4;
                                    chk_length = chk_length + (dict_len + 4)
                                in if chk_length \<ge> src_length
                                   then Inr (Some DictionaryTooLarge, 0, [])
                                   else
                                     let max_dict = dict_start + unat dict_len
                                     in if length src < max_dict + 4 then Inl OutOfBounds
                                        else
                                          let len_len = getbe32 src max_dict;
                                              len_start = max_dict + 4;
                                              max_len = len_start + unat len_len;
                                              chk_length = chk_length + (len_len + 4)
                                          in if chk_length \<ge> src_length
                                             then Inr (Some LengthTableTooLarge, 0, [])
                                             else
                                               case unglaze_loop src code_table max_dict max_len
                                                      (unat code_len) (unat dec_length)
                                                      \<lparr>code_pos = 0, dict_pos = dict_start,
                                                         len_pos = len_start, dst_bytes = []\<rparr> of
                                                 Inl f \<Rightarrow> Inl f
                                               | Inr (e, out) \<Rightarrow>
                                                   Inr (e, if e = None then dec_length else 0, out))"

subsection \<open>Inputs of the scenarios\<close>

text \<open>
  The length-prefixed layout of a Glaze stream: the declared output length,
  then the bit stream (whose first four bytes are the number of opcode
  bytes), the dictionary and the length table, each behind its length.
\<close>

definition be32_bytes :: "nat \<Rightarrow> u8 list" where
  "be32_bytes v = [of_nat (v div 2 ^ 24), of_nat (v div 2 ^ 16), of_nat (v div 2 ^ 8), of_nat v]"

definition glaze_stream :: "nat \<Rightarrow> nat \<Rightarrow> u8 list \<Rightarrow> u8 list \<Rightarrow> u8 list \<Rightarrow> u8 list" where
  "glaze_stream out_len code_len bits dict_bytes lentab =
     be32_bytes out_len @ be32_bytes (4 + length bits) @ be32_bytes code_len @ bits
       @ be32_bytes (length dict_bytes) @ dict_bytes @ be32_bytes (length lentab) @ lentab"

text \<open>
  Scenario S5: \<open>out_len = 10\<close>, the opcode stream \<open>[0x01, 0x01, 0x06, 0x02]\<close>
  (the bits \<open>1 1 00110 010\<close>), the dictionary \<open>"ABCCDEFGHIJ"\<close> and an empty
  length table.
\<close>

definition S5_stream :: "u8 list" where
  "S5_stream =
     glaze_stream 10 4 [0xCC, 0x80]
       [0x41, 0x42, 0x43, 0x43, 0x44, 0x45, 0x46, 0x47, 0x48, 0x49, 0x4A] []"

text \<open>
  A stream with \<open>out_len = 1\<close> whose opcode stream is \<open>[0x00, 0x01]\<close> (the
  bits \<open>00000000 1\<close>), with the dictionary \<open>"A"\<close>.
\<close>

definition skip_stream :: "u8 list" where
  "skip_stream = glaze_stream 1 2 [0x00, 0x80] [0x41] []"

text \<open>
  A bit stream that declares one opcode and ends within its value bits: the
  bits \<open>0000000 1\<close> announce seven value bits, and no byte follows.
\<close>

definition truncated_bitstream :: "u8 list" where
  "truncated_bitstream = be32_bytes 1 @ [0x01]"

section \<open>Bit positions and their rearrangement\<close>

text \<open>
  What follows describes the effect of the bit-swap pass; it is not part of
  the program.  A bit position is a byte index into the buffer paired with a
  bit index.  \<open>bit_position chunk s\<close> is the position \<open>p.b\<close> that the swap
  loop derives from the table entry \<open>s\<close> for the slice at offset \<open>chunk\<close>.
\<close>

type_synonym position = "nat \<times> nat"

definition bit_position :: "nat \<Rightarrow> u16 \<Rightarrow> position" where
  "bit_position chunk s =
     (chunk + unat (ucast (drop_bit 3 s) :: u8), unat (ucast (s AND 7) :: u8))"

definition exchange :: "position \<Rightarrow> position \<Rightarrow> position \<Rightarrow> position" where
  "exchange a b g = (if g = a then b else if g = b then a else g)"

text \<open>
  \<open>bit_image f mem mem'\<close>: the buffer \<open>mem'\<close> has at every position \<open>g\<close> the
  bit that \<open>mem\<close> has at \<open>f g\<close>.
\<close>

definition bit_image :: "(position \<Rightarrow> position) \<Rightarrow> u8 list \<Rightarrow> u8 list \<Rightarrow> bool" where
  "bit_image f mem mem' \<longleftrightarrow>
     length mem' = length mem
     \<and> (\<forall>q c. q < length mem \<and> c < 8 \<longrightarrow>
           bit (mem' ! q) c = bit (mem ! fst (f (q, c))) (snd (f (q, c))))"

text \<open>\<open>f\<close> is its own inverse and moves no position outside \<open>A\<close>.\<close>

definition involution_on :: "position set \<Rightarrow> (position \<Rightarrow> position) \<Rightarrow> bool" where
  "involution_on A f \<longleftrightarrow> (\<forall>g. f (f g) = g) \<and> (\<forall>g. g \<notin> A \<longrightarrow> f g = g)"

text \<open>The positions of the bytes from offset \<open>a\<close> up to offset \<open>b\<close>.\<close>

definition region :: "nat \<Rightarrow> nat \<Rightarrow> position set" where
  "region a b = {g. a \<le> fst g \<and> fst g < b \<and> snd g < 8}"

text \<open>The rearrangement one run of the swap loop makes, read off the table.\<close>

function swap_perm :: "nat \<Rightarrow> nat \<Rightarrow> u16 list \<Rightarrow> nat \<Rightarrow> position \<Rightarrow> position" where
  "swap_perm i n scrambling_table chunk g =
     (if i < n then
        exchange (bit_position chunk (scrambling_table ! i))
          (bit_position chunk (scrambling_table ! (i + 1)))
          (swap_perm (i + 2) n scrambling_table chunk g)
      else g)"
  by pat_completeness auto
termination
  by (relation "measure (\<lambda>(i, n, t, c, g). n - i)") auto

declare swap_perm.simps [simp del]

text \<open>
  The rearrangement the whole pass makes and the value it leaves in
  \<^verbatim>\<open>seed[1]\<close>, read off the generator alone: the recursion is that of
  \<open>slices_loop\<close> without the buffer.
\<close>

function slices_perm ::
  "nat \<Rightarrow> nat \<Rightarrow> nat \<Rightarrow> u32 \<Rightarrow> u32 \<Rightarrow> nat \<Rightarrow> u16 \<Rightarrow> position \<Rightarrow> position" where
  "slices_perm chunk max_chunk chunk_size seed0 seed1 slice_size past g =
     (if chunk < max_chunk \<and> 0 < slice_size then
        let table_size = slice_size * 8;
            r = scramble_loop 0 table_size seed0 seed1 (map of_nat [0..<table_size])
                  (replicate table_size 0) past
        in swap_perm 0 (min table_size ((chunk_size * 8) mod 2 ^ 32)) (fst r) chunk
             (slices_perm (chunk + slice_size) max_chunk
                ((chunk_size + 2 ^ 32 - slice_size) mod 2 ^ 32) seed0 (snd r) slice_size past g)
      else g)"
  by pat_completeness auto
termination
  by (relation "measure (\<lambda>(chunk, max_chunk, r). max_chunk - chunk)") auto

declare slices_perm.simps [simp del]

function slices_seed :: "nat \<Rightarrow> nat \<Rightarrow> u32 \<Rightarrow> u32 \<Rightarrow> nat \<Rightarrow> u16 \<Rightarrow> u32" where
  "slices_seed chunk max_chunk seed0 seed1 slice_size past =
     (if chunk < max_chunk \<and> 0 < slice_size then
        let table_size = slice_size * 8;
            r = scramble_loop 0 table_size seed0 seed1 (map of_nat [0..<table_size])
                  (replicate table_size 0) past
        in slices_seed (chunk + slice_size) max_chunk seed0 (snd r) slice_size past
      else seed1)"
  by pat_completeness auto
termination
  by (relation "measure (\<lambda>(chunk, max_chunk, r). max_chunk - chunk)") auto

declare slices_seed.simps [simp del]

text \<open>The buffer a call of the pass leaves behind, when it returns.\<close>

definition pass_buffer :: "fault + bool \<times> u8 list \<times> u32 \<Rightarrow> u8 list option" where
  "pass_buffer r = (case r of Inl f \<Rightarrow> None | Inr (ok, mem, seed1) \<Rightarrow> Some mem)"

text \<open>A buffer of 256 zero bytes but for one byte, at index \<open>i\<close>.\<close>

definition one_byte_set :: "nat \<Rightarrow> u8 \<Rightarrow> u8 list" where
  "one_byte_set i b = (replicate 256 0)[i := b]"

section \<open>Proofs: the key XOR\<close>

lemma decode_loop_length [simp]: "length (decode_loop i a k len) = length a"
proof (induction i a k len rule: decode_loop.induct)
  case (1 i a k len)
  then show ?case
    by (subst decode_loop.simps) simp
qed

lemma decode_loop_nth:
  "j < length a \<Longrightarrow>
   decode_loop i a k len ! j = (if i \<le> j \<and> j < len then a ! j XOR k ! (j mod 20) else a ! j)"
proof (induction i a k len rule: decode_loop.induct)
  case (1 i a k len)
  show ?case
  proof (cases "i < len")
    case True
    have "decode_loop i a k len ! j
          = decode_loop (i + 1) (a[i := a ! i XOR k ! (i mod 20)]) k len ! j"
      using True by (subst decode_loop.simps) simp
    also have "\<dots> = (if i \<le> j \<and> j < len then a ! j XOR k ! (j mod 20) else a ! j)"
    proof (cases "j = i")
      case True
      then show ?thesis
        using "1.IH" [OF \<open>i < len\<close>] "1.prems" \<open>i < len\<close> by simp
    next
      case False
      then show ?thesis
        using "1.IH" [OF \<open>i < len\<close>] "1.prems" by (auto simp: nth_list_update)
    qed
    finally show ?thesis .
  next
    case False
    then show ?thesis
      by (subst decode_loop.simps) auto
  qed
qed

text \<open>
  \<^bold>\<open>C9\<close>.  The PAK key XOR is an involution: for every byte string \<open>x\<close> and
  every 20-byte key \<open>k\<close>, decoding \<open>x\<close> twice with \<open>k\<close> over its whole
  length gives \<open>x\<close> back.
\<close>

theorem decode_involution:
  "length k = 20 \<Longrightarrow> decode (decode x k (length x)) k (length x) = x"
  by (rule nth_equalityI) (simp_all add: decode_def decode_loop_nth word_bw_assocs)

theorem decode_involution_witness:
  "length [1, 2, 3, 4, 5, 6, 7, 8, 9, 10, 11, 12, 13, 14, 15, 16, 17, 18, 19, 20 :: u8] = 20
   \<and> decode (decode [0x41, 0x42, 0xFF] [1, 2, 3, 4, 5, 6, 7, 8, 9, 10, 11, 12, 13, 14, 15, 16, 17, 18, 19, 20] (length [0x41, 0x42, 0xFF :: u8]))
         [1, 2, 3, 4, 5, 6, 7, 8, 9, 10, 11, 12, 13, 14, 15, 16, 17, 18, 19, 20] (length [0x41, 0x42, 0xFF :: u8])
       = [0x41, 0x42, 0xFF]"
  using decode_involution [of "[1, 2, 3, 4, 5, 6, 7, 8, 9, 10, 11, 12, 13, 14, 15, 16, 17, 18, 19, 20]" "[0x41, 0x42, 0xFF]"]
  by simp

section \<open>Proofs: layout autodetect\<close>

lemma unat_ucast_32_64: "unat (ucast (w :: u32) :: u64) = unat w"
  by (simp add: unsigned_ucast_eq take_bit_nat_eq_self_iff) (rule order_less_trans [OF unsigned_less], simp)

lemma unat_abs_delta:
  "unat (abs_delta v l) = (if unat l < unat v then unat v - unat l else unat l - unat v)"
  by (simp add: abs_delta_def unat_ucast_32_64 word_less_nat_alt unat_sub word_le_nat_alt)

lemma abs_delta_of_nat:
  "abs_delta v l = of_nat (if unat l < unat v then unat v - unat l else unat l - unat v)"
  by (simp add: word_unat_eq_iff unat_abs_delta unat_of_nat) (use unsigned_less [of v, where ?'a = nat] unsigned_less [of l, where ?'a = nat] in auto)

lemma unat_high_half:
  "unat (ucast (drop_bit 32 (w :: u64)) :: u32) = unat (drop_bit 32 w)"
proof -
  have "unat w < 2 ^ 64"
    using unsigned_less [of w, where ?'a = nat] by simp
  then have "unat w div 2 ^ 32 < 2 ^ 32"
    by (simp add: less_mult_imp_div_less)
  then show ?thesis
    by (simp add: unsigned_ucast_eq unat_drop_bit_eq drop_bit_nat_def take_bit_nat_eq_self_iff)
qed

lemma autodetect_loop_sums:
  "i \<le> n \<Longrightarrow>
   autodetect_loop i n e (s0, s1) (l0, l1) =
     (s0 + of_nat (sum_abs_deltas (unat l0 # map (\<lambda>i. unat (data_offset32 e i)) [i..<n])),
      s1 + of_nat (sum_abs_deltas (unat l1 # map (\<lambda>i. unat (drop_bit 32 (data_offset64 e i))) [i..<n])))"
proof (induction "n - i" arbitrary: i s0 s1 l0 l1)
  case 0
  then show ?case
    by (subst autodetect_loop.simps) simp
next
  case (Suc d)
  then have lt: "i < n" and d: "d = n - (i + 1)" and le: "i + 1 \<le> n"
    by simp_all
  have up: "[i..<n] = i # [i + 1..<n]"
    using lt by (simp add: upt_conv_Cons)
  show ?case
    apply (subst autodetect_loop.simps)
    apply (simp only: lt if_True Let_def fst_conv snd_conv)
    apply (subst Suc.hyps(1) [OF d le])
    apply (simp add: up abs_delta_of_nat unat_high_half)
    done
qed

lemma sum_abs_deltas_bound:
  "\<forall>x \<in> set xs. x < 2 ^ 32 \<Longrightarrow> sum_abs_deltas xs \<le> (length xs - 1) * 2 ^ 32"
proof (induction xs rule: sum_abs_deltas.induct)
  case (1 x y ys)
  then have "sum_abs_deltas (y # ys) \<le> length ys * 2 ^ 32" and "x < 2 ^ 32" and "y < 2 ^ 32"
    by simp_all
  then show ?case
    by auto
qed simp_all

lemma sum_abs_deltas_lt:
  assumes "n \<le> 64" and "\<And>i. f i < (2 :: nat) ^ 32"
  shows "sum_abs_deltas (0 # map f [0..<n]) < 2 ^ 64"
proof -
  have "sum_abs_deltas (0 # map f [0..<n]) \<le> (length (0 # map f [0..<n]) - 1) * 2 ^ 32"
    by (rule sum_abs_deltas_bound) (use assms(2) in auto)
  also have "\<dots> \<le> 64 * 2 ^ 32"
    using assms(1) by simp
  finally show ?thesis
    by simp
qed

lemma unat_lt_32: "unat (w :: u32) < 2 ^ 32"
  using unsigned_less [of w, where ?'a = nat] by simp

lemma unat_drop_lt_32: "unat (drop_bit 32 (w :: u64)) < 2 ^ 32"
proof -
  have "unat w < 2 ^ 64"
    using unsigned_less [of w, where ?'a = nat] by simp
  then show ?thesis
    by (simp add: unat_drop_bit_eq drop_bit_nat_def less_mult_imp_div_less)
qed

lemma is_pak32_sums:
  "is_pak32 nb_entries entries64 \<longleftrightarrow>
     sum_abs_deltas (0 # offsets32 entries64 (min (unat nb_entries) 64))
       < sum_abs_deltas (0 # offsets64_high entries64 (min (unat nb_entries) 64))"
proof -
  let ?n = "min (unat nb_entries) 64"
  let ?A = "sum_abs_deltas (0 # offsets32 entries64 ?n)"
  let ?B = "sum_abs_deltas (0 # offsets64_high entries64 ?n)"
  have A: "?A < 2 ^ 64"
    unfolding offsets32_def by (rule sum_abs_deltas_lt) (simp, rule unat_lt_32)
  have B: "?B < 2 ^ 64"
    unfolding offsets64_high_def by (rule sum_abs_deltas_lt) (simp, rule unat_drop_lt_32)
  have "autodetect_loop 0 ?n entries64 (0, 0) (0, 0) = (of_nat ?A, of_nat ?B)"
    by (simp add: autodetect_loop_sums offsets32_def offsets64_high_def)
  then have "is_pak32 nb_entries entries64 \<longleftrightarrow> (of_nat ?A :: u64) < of_nat ?B"
    by (simp add: is_pak32_def Let_def)
  also have "\<dots> \<longleftrightarrow> ?A < ?B"
  proof -
    have "take_bit 64 ?A = ?A" "take_bit 64 ?B = ?B"
      using A B by (simp_all add: take_bit_nat_eq_self_iff)
    then show ?thesis
      by (simp add: word_of_nat_less_iff)
  qed
  finally show ?thesis .
qed

lemma S1_table_offsets32: "offsets32 (S1_table d) 2 = [0, 0x200]"
  by (simp add: offsets32_def upt_conv_Cons data_offset32_def S1_table_def entry32_def le32_def le_bytes_def nth_append)

lemma S1_entries_high: "offsets64_high S1_entries 2 = [0, 0]"
  by (simp add: offsets64_high_def upt_conv_Cons data_offset64_def S1_entries_def S1_table_def entry32_def le64_def le32_def
      le_bytes_def nth_append)

lemma pak64_offsets32: "offsets32 pak64_entries 2 = [0, 0]"
  by (simp add: offsets32_def upt_conv_Cons data_offset32_def pak64_entries_def entry64_def 
      le32_def le_bytes_def nth_append)

lemma pak64_offsets64:
  "map (\<lambda>i. unat (data_offset64 pak64_entries i)) [0..<2] = [0, 0x200]"
  by (simp add: upt_conv_Cons data_offset64_def pak64_entries_def entry64_def le64_def
      le32_def le_bytes_def nth_append)

lemma pak64_high: "offsets64_high pak64_entries 2 = [0, 0]"
  by (simp add: offsets64_high_def upt_conv_Cons data_offset64_def pak64_entries_def entry64_def le64_def le32_def
      le_bytes_def nth_append)

text \<open>
  \<^bold>\<open>C3\<close>, as stated, fails.  On a table of the shape of scenario S1 whose
  reserved field and following data bytes 4..7 are zero the code selects the
  64-bit layout; and on a 64-bit table with offsets \<open>0\<close> and \<open>0x200\<close> the
  rule that compares the two layouts' \<^verbatim>\<open>data_offset\<close> sequences selects
  the 32-bit layout, while the code selects the 64-bit one.
\<close>

theorem autodetect_counterexample:
  "\<not> is_pak32 2 S1_entries
   \<and> spec_is_pak32 2 pak64_entries \<and> \<not> is_pak32 2 pak64_entries"
  by (simp add: is_pak32_sums spec_is_pak32_def S1_entries_high pak64_offsets32 pak64_high
      pak64_offsets64 [unfolded offsets32_def] pak64_offsets32 [unfolded offsets32_def])

text \<open>
  \<^bold>\<open>C3\<close>, amended.  Over the first \<open>min(entry_count, 64)\<close> entries the code
  sums the absolute deltas of the 32-bit layout's \<^verbatim>\<open>data_offset\<close> values
  and of the upper 32 bits of the 64-bit layout's \<^verbatim>\<open>data_offset\<close> values,
  each sequence preceded by 0, and selects the 32-bit layout exactly when the
  first sum is smaller.  On a table of the shape of S1 (offsets \<open>0\<close> and
  \<open>0x200\<close>) it therefore selects the 32-bit layout exactly when the second
  sum exceeds \<open>0x200\<close>.
\<close>

theorem autodetect_rule:
  "(is_pak32 nb_entries entries64 \<longleftrightarrow>
      sum_abs_deltas (0 # offsets32 entries64 (min (unat nb_entries) 64))
        < sum_abs_deltas (0 # offsets64_high entries64 (min (unat nb_entries) 64)))
   \<and> (data_offset32 entries64 0 = 0 \<and> data_offset32 entries64 1 = 0x200 \<longrightarrow>
        (is_pak32 2 entries64 \<longleftrightarrow> 0x200 < sum_abs_deltas (0 # offsets64_high entries64 2)))"
proof -
  have "offsets32 entries64 2 = [0, 0x200]"
    if "data_offset32 entries64 0 = 0" and "data_offset32 entries64 1 = 0x200"
    using that by (simp add: offsets32_def upt_conv_Cons)
  then show ?thesis
    by (auto simp: is_pak32_sums)
qed

lemma S1_table_A_high: "offsets64_high (S1_table (replicate 16 0x41)) 2 = [0, 0x41414141]"
  by (simp add: offsets64_high_def upt_conv_Cons data_offset64_def S1_table_def entry32_def
      le64_def le32_def le_bytes_def nth_append)

lemma S1_table_offsets:
  "data_offset32 (S1_table d) 0 = 0" "data_offset32 (S1_table d) (Suc 0) = 0x200"
  by (simp_all add: data_offset32_def S1_table_def entry32_def le32_def le_bytes_def nth_append)

theorem autodetect_rule_witness:
  "data_offset32 (S1_table (replicate 16 0x41)) 0 = 0
   \<and> data_offset32 (S1_table (replicate 16 0x41)) 1 = 0x200
   \<and> is_pak32 2 (S1_table (replicate 16 0x41))"
  using autodetect_rule [of 2 "S1_table (replicate 16 0x41)"]
  by (simp add: S1_table_offsets S1_table_A_high S1_table_offsets32)

section \<open>Proofs: the Glaze decompressor\<close>

lemmas glaze_eval = getbits_def EOF32_def Let_def code_step_def read_code_def read_src_def
  case_0x01_def case_0x02_def case_0x03_def case_0x04_def case_0x05_def case_0x06_def
  case_0x07_def unglaze_step_def getbe32_def be32_bytes_def glaze_stream_def

text \<open>
  \<^bold>\<open>C6\<close> fails on the code.  The bit stream declares one opcode; its bits
  \<open>0000000 1\<close> announce seven value bits and the stream ends there.  The
  end-of-stream value that \<^verbatim>\<open>getbits\<close> returns for the value bits is not
  tested: it is or-ed into the opcode, and \<open>0xFF\<close> is written to the table
  for the code that was read in part.
\<close>

theorem truncated_value_bits_emit:
  "build_code_table truncated_bitstream 5 = Inr (1, [Some 0xFF])"
  by (simp add: build_code_table_def truncated_bitstream_def glaze_eval code_loop.simps prefix_loop.simps)

lemma replicate_numeral: "replicate (numeral k) x = x # replicate (pred_numeral k) x"
  by (simp add: numeral_eq_Suc)

lemma S5_table:
  "build_code_table (drop 8 S5_stream) 6 = Inr (4, [Some 0x01, Some 0x01, Some 0x06, Some 0x02])"
  by (simp add: build_code_table_def S5_stream_def glaze_eval code_loop.simps prefix_loop.simps
      replicate_numeral)

lemma skip_table:
  "build_code_table (drop 8 skip_stream) 6 = Inr (2, [Some 0x00, Some 0x01])"
  by (simp add: build_code_table_def skip_stream_def glaze_eval code_loop.simps prefix_loop.simps
      replicate_numeral)

text \<open>
  \<^bold>\<open>C2\<close>, as stated, fails: the opcode stream \<open>[0x00, 0x01]\<close> decompresses
  to the one byte of the dictionary, and the call returns \<open>dec_length\<close>.
\<close>

theorem unknown_opcode_counterexample: "unglaze skip_stream 1 = Inr (None, 1, [0x41])"
proof -
  have h: "getbe32 skip_stream 0 = 1" "getbe32 skip_stream 4 = 6" "length skip_stream = 23"
    by (simp_all add: skip_stream_def glaze_eval)
  have g: "getbe32 skip_stream 14 = 1"  "getbe32 skip_stream 19 = 0"
    by (simp_all add: skip_stream_def glaze_eval)
  show ?thesis
    apply (simp add: unglaze_def h g skip_table Let_def word_le_nat_alt)
    apply (subst unglaze_loop.simps, simp add: skip_stream_def glaze_eval)
    apply (subst unglaze_loop.simps, simp add: skip_stream_def glaze_eval)
    apply (subst unglaze_loop.simps, simp add: skip_stream_def glaze_eval)
    done
qed

lemma copy_dict_numeral:
  "copy_dict (numeral k) src dp out =
     (case read_src src dp of
        Inl f \<Rightarrow> Inl f
      | Inr b \<Rightarrow> copy_dict (pred_numeral k) src (dp + 1) (out @ [b]))"
  by (simp add: numeral_eq_Suc)

lemma copy_back_numeral:
  "copy_back (numeral k) d out =
     (if d = 0 then Inl Uninitialised
      else if d > length out then Inl OutOfBounds
      else copy_back (pred_numeral k) d (out @ [out ! (length out - d)]))"
  by (simp add: numeral_eq_Suc)

lemma S5_bytes:
  "S5_stream = [0, 0, 0, 10, 0, 0, 0, 6, 0, 0, 0, 4, 0xCC, 0x80, 0, 0, 0, 11,
     0x41, 0x42, 0x43, 0x43, 0x44, 0x45, 0x46, 0x47, 0x48, 0x49, 0x4A, 0, 0, 0, 0]"
  by (simp add: S5_stream_def glaze_stream_def be32_bytes_def)

lemma S5_step1:
  "unglaze_step S5_stream [Some 0x01, Some 0x01, Some 0x06, Some 0x02]
     \<lparr>code_pos = 0, dict_pos = 18, len_pos = 33, dst_bytes = []\<rparr>
   = Inr \<lparr>code_pos = 1, dict_pos = 19, len_pos = 33, dst_bytes = [0x41]\<rparr>"
  by (simp add: S5_bytes unglaze_step_def read_code_def case_0x01_def read_src_def)

lemma S5_step2:
  "unglaze_step S5_stream [Some 0x01, Some 0x01, Some 0x06, Some 0x02]
     \<lparr>code_pos = 1, dict_pos = 19, len_pos = 33, dst_bytes = [0x41]\<rparr>
   = Inr \<lparr>code_pos = 2, dict_pos = 20, len_pos = 33, dst_bytes = [0x41, 0x42]\<rparr>"
  by (simp add: S5_bytes unglaze_step_def read_code_def case_0x01_def read_src_def)

lemma S5_step3:
  "unglaze_step S5_stream [Some 0x01, Some 0x01, Some 0x06, Some 0x02]
     \<lparr>code_pos = 2, dict_pos = 20, len_pos = 33, dst_bytes = [0x41, 0x42]\<rparr>
   = Inr \<lparr>code_pos = 4, dict_pos = 30, len_pos = 33,
          dst_bytes = [0x41, 0x42, 0x43, 0x43, 0x44, 0x45, 0x46, 0x47, 0x48, 0x49, 0x4A, 0x00]\<rparr>"
  by (simp add: S5_bytes unglaze_step_def read_code_def case_0x06_def read_src_def
      copy_dict_numeral)

lemma S5_loop:
  "unglaze_loop S5_stream [Some 0x01, Some 0x01, Some 0x06, Some 0x02] 29 33 4 10
     \<lparr>code_pos = 0, dict_pos = 18, len_pos = 33, dst_bytes = []\<rparr>
   = Inr (None, [0x41, 0x42, 0x43, 0x43, 0x44, 0x45, 0x46, 0x47, 0x48, 0x49, 0x4A, 0x00])"
  apply (subst unglaze_loop.simps, simp add: S5_step1 del: One_nat_def)
  apply (subst unglaze_loop.simps, simp add: S5_step2 del: One_nat_def)
  apply (subst unglaze_loop.simps, simp add: S5_step3 del: One_nat_def)
  apply (subst unglaze_loop.simps, simp)
  done

text \<open>
  \<^bold>\<open>C1\<close> fails on the code.  On the stream of scenario S5 the third opcode
  (\<open>0x06\<close> with operand 2) copies ten bytes onto the two already stored:
  twelve bytes are stored through \<^verbatim>\<open>dst\<close>, two of them behind the ten the
  caller allocated (the last one read from behind the dictionary), no
  failure is reported, and the call returns \<open>dec_length = 10\<close>, which its
  caller takes for success.
\<close>

theorem unglaze_S5_overrun:
  "unglaze S5_stream 10 =
     Inr (None, 10, [0x41, 0x42, 0x43, 0x43, 0x44, 0x45, 0x46, 0x47, 0x48, 0x49, 0x4A, 0x00])"
proof -
  have h: "getbe32 S5_stream 0 = 10" "getbe32 S5_stream 4 = 6" "length S5_stream = 33"
    "getbe32 S5_stream 14 = 11" "getbe32 S5_stream 29 = 0"
    by (simp_all add: S5_bytes getbe32_def)
  show ?thesis
    by (simp add: unglaze_def h S5_table Let_def word_le_nat_alt S5_loop)
qed

lemma skip_bytes:
  "skip_stream = [0, 0, 0, 1, 0, 0, 0, 6, 0, 0, 0, 2, 0x00, 0x80, 0, 0, 0, 1, 0x41, 0, 0, 0, 0]"
  by (simp add: skip_stream_def glaze_stream_def be32_bytes_def)

text \<open>
  \<^bold>\<open>C2\<close>, amended.  An opcode byte that is none of \<open>0x01 .. 0x07\<close> (among
  them the \<open>0x00\<close> that opcode-table recovery can emit) is skipped: the
  step consumes that one byte of the opcode stream, stores nothing and moves
  no other cursor, it reports no failure, and the loop goes on with the
  state so reached.
\<close>

theorem unknown_opcode_skipped:
  assumes "read_code code_table (code_pos st) = Inr opcode"
    and "opcode \<notin> {0x01, 0x02, 0x03, 0x04, 0x05, 0x06, 0x07}"
  shows "unglaze_step src code_table st = Inr (st\<lparr>code_pos := code_pos st + 1\<rparr>)
     \<and> (length (dst_bytes st) < dst_max \<and> dict_pos st \<le> max_dict \<and> len_pos st \<le> max_len
          \<and> code_pos st \<le> max_code \<longrightarrow>
        unglaze_loop src code_table max_dict max_len max_code dst_max st =
        unglaze_loop src code_table max_dict max_len max_code dst_max
          (st\<lparr>code_pos := code_pos st + 1\<rparr>))"
proof -
  have step: "unglaze_step src code_table st = Inr (st\<lparr>code_pos := code_pos st + 1\<rparr>)"
    using assms by (simp add: unglaze_step_def)
  show ?thesis
    by (subst unglaze_loop.simps) (auto simp: step)
qed

theorem unknown_opcode_skipped_witness:
  "read_code [Some 0x00, Some 0x01] (code_pos \<lparr>code_pos = 0, dict_pos = 18, len_pos = 23, dst_bytes = []\<rparr>) = Inr 0
   \<and> (0 :: u8) \<notin> {0x01, 0x02, 0x03, 0x04, 0x05, 0x06, 0x07}
   \<and> unglaze_step skip_stream [Some 0x00, Some 0x01]
         \<lparr>code_pos = 0, dict_pos = 18, len_pos = 23, dst_bytes = []\<rparr>
       = Inr \<lparr>code_pos = 1, dict_pos = 18, len_pos = 23, dst_bytes = []\<rparr>
   \<and> unglaze_loop skip_stream [Some 0x00, Some 0x01] 19 23 2 1
         \<lparr>code_pos = 0, dict_pos = 18, len_pos = 23, dst_bytes = []\<rparr>
       = unglaze_loop skip_stream [Some 0x00, Some 0x01] 19 23 2 1
           \<lparr>code_pos = 1, dict_pos = 18, len_pos = 23, dst_bytes = []\<rparr>"
proof -
  have r: "read_code [Some 0x00, Some 0x01]
             (code_pos \<lparr>code_pos = 0, dict_pos = 18, len_pos = 23, dst_bytes = []\<rparr>) = Inr 0"
    by (simp add: read_code_def)
  have n: "(0 :: u8) \<notin> {0x01, 0x02, 0x03, 0x04, 0x05, 0x06, 0x07}"
    by simp
  show ?thesis
    using unknown_opcode_skipped [OF r n, of skip_stream 1 19 23 2] r n
    by simp
qed

section \<open>Proofs: the bit-swap pass\<close>

subsection \<open>One exchange of two bits\<close>

lemma bit_pick: "b < 8 \<Longrightarrow> bit (drop_bit b ((w :: u8) AND push_bit b 1)) c \<longleftrightarrow> c = 0 \<and> bit w b"
  by (auto simp: bit_simps)

lemma bit_clear: "c < 8 \<Longrightarrow> bit ((w :: u8) AND NOT (push_bit b 1)) c \<longleftrightarrow> bit w c \<and> c \<noteq> b"
  by (auto simp: bit_simps)

lemma bit_put:
  "c < 8 \<Longrightarrow> b < 8 \<Longrightarrow> b' < 8 \<Longrightarrow>
   bit ((w :: u8) OR push_bit b (drop_bit b' (w' AND push_bit b' 1))) c \<longleftrightarrow>
     bit w c \<or> (c = b \<and> bit w' b')"
  by (auto simp: bit_simps)

lemma bit_position_snd: "snd (bit_position chunk s) < 8"
proof -
  have "unat (s AND 7) \<le> unat (7 :: u16)"
    by (rule word_and_le1 [THEN word_le_nat_alt [THEN iffD1]])
  then have "unat (ucast (s AND 7) :: u8) < 8"
    by (simp add: unsigned_ucast_eq take_bit_eq_mod) 
  then show ?thesis
    by (simp add: bit_position_def)
qed

lemma swap_bits_image:
  assumes "fst (bit_position chunk s0) < length mem" and "fst (bit_position chunk s1) < length mem"
  shows "\<exists>mem'. swap_bits mem chunk s0 s1 = Inr mem'
           \<and> bit_image (exchange (bit_position chunk s0) (bit_position chunk s1)) mem mem'"
proof -
  obtain p0 b0 where a: "bit_position chunk s0 = (p0, b0)"
    by (cases "bit_position chunk s0")
  obtain p1 b1 where b: "bit_position chunk s1 = (p1, b1)"
    by (cases "bit_position chunk s1")
  have b0: "b0 < 8" and b1: "b1 < 8"
    using bit_position_snd [of chunk s0] bit_position_snd [of chunk s1] a b by simp_all
  have p0: "p0 < length mem" and p1: "p1 < length mem"
    using assms a b by simp_all
  define v0 where "v0 = drop_bit b0 (mem ! p0 AND push_bit b0 1)"
  define v1 where "v1 = drop_bit b1 (mem ! p1 AND push_bit b1 1)"
  define mem1 where "mem1 = mem[p0 := mem ! p0 AND NOT (push_bit b0 1)]"
  define mem2 where "mem2 = mem1[p0 := mem1 ! p0 OR push_bit b0 v1]"
  define mem3 where "mem3 = mem2[p1 := mem2 ! p1 AND NOT (push_bit b1 1)]"
  define mem4 where "mem4 = mem3[p1 := mem3 ! p1 OR push_bit b1 v0]"
  have run: "swap_bits mem chunk s0 s1 = Inr mem4"
    using a b p0 p1
    by (simp add: swap_bits_def bit_position_def Let_def mem4_def mem3_def mem2_def mem1_def
        v0_def v1_def)
  have len: "length mem4 = length mem"
    by (simp add: mem4_def mem3_def mem2_def mem1_def)
  have m2: "bit (mem2 ! p0) c \<longleftrightarrow> (if c = b0 then bit (mem ! p1) b1 else bit (mem ! p0) c)"
    if "c < 8" for c
  proof -
    have "mem2 ! p0 = (mem ! p0 AND NOT (push_bit b0 1))
            OR push_bit b0 (drop_bit b1 (mem ! p1 AND push_bit b1 1))"
      using p0 by (simp only: mem2_def mem1_def v1_def nth_list_update_eq length_list_update)
    then show ?thesis
      by (simp only: bit_put [OF that b0 b1] bit_clear [OF that]) auto
  qed
  have m2': "mem2 ! q = mem ! q" if "q \<noteq> p0" for q
    using that by (simp add: mem2_def mem1_def)
  have m4: "bit (mem4 ! p1) c \<longleftrightarrow> (if c = b1 then bit (mem ! p0) b0 else bit (mem2 ! p1) c)"
    if "c < 8" for c
  proof -
    have "length mem2 = length mem"
      by (simp add: mem2_def mem1_def)
    then have "mem4 ! p1 = (mem2 ! p1 AND NOT (push_bit b1 1))
            OR push_bit b1 (drop_bit b0 (mem ! p0 AND push_bit b0 1))"
      using p1 by (simp only: mem4_def mem3_def v0_def nth_list_update_eq length_list_update)
    then show ?thesis
      by (simp only: bit_put [OF that b1 b0] bit_clear [OF that]) auto
  qed
  have m4': "mem4 ! q = mem2 ! q" if "q \<noteq> p1" for q
    using that by (simp add: mem4_def mem3_def)
  have "bit (mem4 ! q) c =
          bit (mem ! fst (exchange (p0, b0) (p1, b1) (q, c))) (snd (exchange (p0, b0) (p1, b1) (q, c)))"
    if "q < length mem" and "c < 8" for q c
  proof -
    consider "q = p1" "p1 = p0" | "q = p1" "p1 \<noteq> p0" | "q \<noteq> p1" "q = p0" | "q \<noteq> p1" "q \<noteq> p0"
      by blast
    then show ?thesis
    proof cases
      case 1
      then show ?thesis
        using m4 [OF \<open>c < 8\<close>] m2 [OF \<open>c < 8\<close>] by (auto simp: exchange_def)
    next
      case 2
      then show ?thesis
        using m4 [OF \<open>c < 8\<close>] m2' [of p1] by (auto simp: exchange_def)
    next
      case 3
      then show ?thesis
        using m4' [of q] m2 [OF \<open>c < 8\<close>] by (auto simp: exchange_def)
    next
      case 4
      then show ?thesis
        using m4' [of q] m2' [of q] by (auto simp: exchange_def)
    qed
  qed
  then have "bit_image (exchange (bit_position chunk s0) (bit_position chunk s1)) mem mem4"
    by (simp add: bit_image_def len a b)
  with run show ?thesis
    by blast
qed

subsection \<open>Rearrangements and involutions\<close>

lemma exchange_valid:
  "fst a < n \<Longrightarrow> snd a < 8 \<Longrightarrow> fst b < n \<Longrightarrow> snd b < 8 \<Longrightarrow> fst g < n \<Longrightarrow> snd g < 8
   \<Longrightarrow> fst (exchange a b g) < n \<and> snd (exchange a b g) < 8"
  by (simp add: exchange_def)

lemma involution_onD1: "involution_on A f \<Longrightarrow> f (f g) = g"
  unfolding involution_on_def by blast

lemma involution_onD2: "involution_on A f \<Longrightarrow> g \<notin> A \<Longrightarrow> f g = g"
  unfolding involution_on_def by blast

lemma involution_onI:
  "(\<And>g. f (f g) = g) \<Longrightarrow> (\<And>g. g \<notin> A \<Longrightarrow> f g = g) \<Longrightarrow> involution_on A f"
  unfolding involution_on_def by blast

lemma involution_on_exchange: "involution_on {a, b} (exchange a b)"
  by (rule involution_onI) (auto simp: exchange_def)

lemma involution_on_mono: "involution_on A f \<Longrightarrow> A \<subseteq> B \<Longrightarrow> involution_on B f"
  unfolding involution_on_def by blast

lemma involution_on_closed:
  assumes "involution_on A f" and "g \<in> A"
  shows "f g \<in> A"
proof (rule ccontr)
  assume "f g \<notin> A"
  then have "f (f g) = f g"
    using assms(1) by (rule involution_onD2 [rotated])
  then have "g = f g"
    using involution_onD1 [OF assms(1), of g] by simp
  with \<open>f g \<notin> A\<close> assms(2) show False
    by simp
qed

lemma involution_on_comp:
  assumes f: "involution_on A f" and h: "involution_on B h" and disj: "A \<inter> B = {}"
  shows "involution_on (A \<union> B) (\<lambda>g. f (h g))"
proof -
  have ff: "f (f g) = g" and hh: "h (h g) = g" for g
    using involution_onD1 [OF f] involution_onD1 [OF h] by simp_all
  have fA: "g \<notin> A \<Longrightarrow> f g = g" and hB: "g \<notin> B \<Longrightarrow> h g = g" for g
    using involution_onD2 [OF f] involution_onD2 [OF h] by simp_all
  have "f (h (f (h g))) = g" for g
  proof (cases "g \<in> B")
    case True
    then have "h g \<in> B"
      using involution_on_closed [OF h] by blast
    then have "h g \<notin> A"
      using disj by blast
    then have "f (h g) = h g"
      by (rule fA)
    moreover have "g \<notin> A"
      using True disj by blast
    ultimately show ?thesis
      by (simp add: hh fA)
  next
    case False
    then have hg: "h g = g"
      by (rule hB)
    show ?thesis
    proof (cases "g \<in> A")
      case True
      then have "f g \<in> A"
        using involution_on_closed [OF f] by blast
      then have "f g \<notin> B"
        using disj by blast
      then show ?thesis
        by (simp add: hg hB ff)
    next
      case False
      then show ?thesis
        by (simp add: hg fA)
    qed
  qed
  moreover have "f (h g) = g" if "g \<notin> A \<union> B" for g
    using that by (simp add: fA hB)
  ultimately show ?thesis
    by (intro involution_onI)
qed

lemma involution_on_valid:
  assumes "involution_on A f" and "A \<subseteq> region 0 n" and "q < n" and "c < 8"
  shows "fst (f (q, c)) < n \<and> snd (f (q, c)) < 8"
proof (cases "(q, c) \<in> A")
  case True
  then have "f (q, c) \<in> region 0 n"
    using involution_on_closed [OF assms(1)] assms(2) by blast
  then show ?thesis
    by (simp add: region_def)
next
  case False
  then have "f (q, c) = (q, c)"
    using assms(1) by (rule involution_onD2 [rotated])
  with assms(3,4) show ?thesis
    by simp
qed

lemma bit_image_id: "bit_image (\<lambda>g. g) mem mem"
  by (simp add: bit_image_def)

lemma bit_image_comp:
  assumes "bit_image f mem mem1" and "bit_image h mem1 mem2"
    and "\<And>q c. q < length mem \<Longrightarrow> c < 8 \<Longrightarrow> fst (h (q, c)) < length mem \<and> snd (h (q, c)) < 8"
  shows "bit_image (\<lambda>g. f (h g)) mem mem2"
  using assms by (simp add: bit_image_def)

lemma bit_image_twice:
  assumes one: "bit_image f mem mem1" and two: "bit_image f mem1 mem2"
    and inv: "involution_on A f" and sub: "A \<subseteq> region 0 (length mem)"
  shows "mem2 = mem"
proof (rule nth_equalityI)
  show len: "length mem2 = length mem"
    using one two by (simp add: bit_image_def)
  fix q
  assume "q < length mem2"
  then have q: "q < length mem"
    using len by simp
  show "mem2 ! q = mem ! q"
  proof (rule bit_word_eqI)
    fix c
    assume "c < LENGTH(8)"
    then have c: "c < 8"
      by simp
    have v: "fst (f (q, c)) < length mem \<and> snd (f (q, c)) < 8"
      using involution_on_valid [OF inv sub q c] .
    have "bit (mem2 ! q) c = bit (mem1 ! fst (f (q, c))) (snd (f (q, c)))"
      using two one q c by (simp add: bit_image_def)
    also have "\<dots> = bit (mem ! fst (f (f (q, c)))) (snd (f (f (q, c))))"
      using one v by (simp add: bit_image_def)
    also have "f (f (q, c)) = (q, c)"
      using inv by (rule involution_onD1)
    finally show "bit (mem2 ! q) c = bit (mem ! q) c"
      by simp
  qed
qed

subsection \<open>The swap loop\<close>

lemma swap_perm_step:
  "i < n \<Longrightarrow> swap_perm i n tbl chunk g =
     exchange (bit_position chunk (tbl ! i)) (bit_position chunk (tbl ! (i + 1)))
       (swap_perm (i + 2) n tbl chunk g)"
  by (subst swap_perm.simps) simp

lemma swap_perm_done: "\<not> i < n \<Longrightarrow> swap_perm i n tbl chunk g = g"
  by (subst swap_perm.simps) simp

lemma swap_perm_valid:
  assumes "\<forall>j. i \<le> j \<and> j < n \<longrightarrow> fst (bit_position chunk (tbl ! j)) < m"
    and "even i" and "even n" and "fst g < m" and "snd g < 8"
  shows "fst (swap_perm i n tbl chunk g) < m \<and> snd (swap_perm i n tbl chunk g) < 8"
  using assms
proof (induction i n tbl chunk g rule: swap_perm.induct)
  case (1 i n tbl chunk g)
  show ?case
  proof (cases "i < n")
    case True
    with "1.prems" have i1: "i + 1 < n"
      by presburger
    have rest: "fst (swap_perm (i + 2) n tbl chunk g) < m \<and> snd (swap_perm (i + 2) n tbl chunk g) < 8"
      using "1.IH" [OF True] "1.prems" by simp
    show ?thesis
      unfolding swap_perm_step [OF True]
      by (rule exchange_valid) (use "1.prems" True i1 rest bit_position_snd in simp_all)
  next
    case False
    with "1.prems" show ?thesis
      by (simp add: swap_perm_done)
  qed
qed

lemma swap_loop_image:
  assumes "\<forall>j. i \<le> j \<and> j < n \<longrightarrow> fst (bit_position chunk (tbl ! j)) < length mem"
    and "even i" and "even n"
  shows "\<exists>mem'. swap_loop i n tbl chunk mem = Inr mem'
           \<and> bit_image (swap_perm i n tbl chunk) mem mem'"
  using assms
proof (induction i n tbl chunk mem rule: swap_loop.induct)
  case (1 i n tbl chunk mem)
  show ?case
  proof (cases "i < n")
    case True
    with "1.prems" have i1: "i + 1 < n"
      by presburger
    obtain mem1 where s: "swap_bits mem chunk (tbl ! i) (tbl ! (i + 1)) = Inr mem1"
      and im1: "bit_image (exchange (bit_position chunk (tbl ! i))
                  (bit_position chunk (tbl ! (i + 1)))) mem mem1"
      using swap_bits_image [of chunk "tbl ! i" mem "tbl ! (i + 1)"] "1.prems"(1) True i1
      by auto
    have len: "length mem1 = length mem"
      using im1 by (simp add: bit_image_def)
    obtain mem' where l: "swap_loop (i + 2) n tbl chunk mem1 = Inr mem'"
      and im2: "bit_image (swap_perm (i + 2) n tbl chunk) mem1 mem'"
      using "1.IH" [OF True s] "1.prems" len by auto
    have v: "fst (swap_perm (i + 2) n tbl chunk (q, c)) < length mem
             \<and> snd (swap_perm (i + 2) n tbl chunk (q, c)) < 8"
      if "q < length mem" and "c < 8" for q c
      by (rule swap_perm_valid) (use "1.prems" that in simp_all)
    have "bit_image (\<lambda>g. exchange (bit_position chunk (tbl ! i))
                  (bit_position chunk (tbl ! (i + 1))) (swap_perm (i + 2) n tbl chunk g)) mem mem'"
      using im1 im2 v by (rule bit_image_comp)
    moreover have "(\<lambda>g. exchange (bit_position chunk (tbl ! i))
                  (bit_position chunk (tbl ! (i + 1))) (swap_perm (i + 2) n tbl chunk g))
                 = swap_perm i n tbl chunk"
      by (rule ext) (simp add: swap_perm_step [OF True])
    ultimately have "bit_image (swap_perm i n tbl chunk) mem mem'"
      by simp
    moreover have "swap_loop i n tbl chunk mem = Inr mem'"
      using True s l by (subst swap_loop.simps) simp
    ultimately show ?thesis
      by blast
  next
    case False
    then have "swap_loop i n tbl chunk mem = Inr mem"
      by (subst swap_loop.simps) simp
    moreover have "bit_image (swap_perm i n tbl chunk) mem mem"
      using False by (simp add: bit_image_def swap_perm_done)
    ultimately show ?thesis
      by blast
  qed
qed

lemma swap_perm_involution:
  assumes "even i" and "even n"
    and "inj_on (\<lambda>j. bit_position chunk (tbl ! j)) {i..<n}"
  shows "involution_on ((\<lambda>j. bit_position chunk (tbl ! j)) ` {i..<n}) (swap_perm i n tbl chunk)"
  using assms
proof (induction "n - i" arbitrary: i rule: less_induct)
  case less
  let ?P = "\<lambda>j. bit_position chunk (tbl ! j)"
  show ?case
  proof (cases "i < n")
    case True
    with less.prems have i1: "i + 1 < n"
      by presburger
    have split: "{i..<n} = {i, i + 1} \<union> {i + 2..<n}"
      using i1 by auto
    have inj2: "inj_on ?P {i + 2..<n}"
      using less.prems(3) by (rule inj_on_subset) auto
    have rest: "involution_on (?P ` {i + 2..<n}) (swap_perm (i + 2) n tbl chunk)"
      by (rule less.hyps) (use True less.prems inj2 in simp_all)
    have disj: "{?P i, ?P (i + 1)} \<inter> ?P ` {i + 2..<n} = {}"
    proof (rule ccontr)
      assume "{?P i, ?P (i + 1)} \<inter> ?P ` {i + 2..<n} \<noteq> {}"
      then obtain j where j: "j \<in> {i + 2..<n}" and eq: "?P j = ?P i \<or> ?P j = ?P (i + 1)"
        by auto
      from eq show False
      proof
        assume "?P j = ?P i"
        then have "j = i"
          using less.prems(3) j True by (auto dest: inj_onD)
        with j show False by simp
      next
        assume "?P j = ?P (i + 1)"
        then have "j = i + 1"
          using less.prems(3) j i1 by (auto dest: inj_onD)
        with j show False by simp
      qed
    qed
    have "involution_on ({?P i, ?P (i + 1)} \<union> ?P ` {i + 2..<n})
            (\<lambda>g. exchange (?P i) (?P (i + 1)) (swap_perm (i + 2) n tbl chunk g))"
      using involution_on_exchange rest disj by (rule involution_on_comp)
    moreover have "(\<lambda>g. exchange (?P i) (?P (i + 1)) (swap_perm (i + 2) n tbl chunk g))
                     = swap_perm i n tbl chunk"
      by (rule ext) (simp add: swap_perm_step [OF True])
    moreover have "?P ` {i..<n} = {?P i, ?P (i + 1)} \<union> ?P ` {i + 2..<n}"
      by (subst split) auto
    ultimately show ?thesis
      by simp
  next
    case False
    then show ?thesis
      by (intro involution_onI) (simp_all add: swap_perm_done)
  qed
qed

subsection \<open>The scrambling table\<close>

lemma and_7_unat: "unat ((v :: u16) AND 7) = unat v mod 8"
proof -
  have "v AND 7 = take_bit 3 v"
    by (simp add: take_bit_eq_mask mask_eq_exp_minus_1)
  then show ?thesis
    by (simp add: unsigned_take_bit_eq take_bit_eq_mod unat_mod)
qed

lemma bit_position_eq:
  assumes "unat v < 2048"
  shows "bit_position chunk v = (chunk + unat v div 8, unat v mod 8)"
proof -
  have "unat (drop_bit 3 v) = unat v div 8"
    by (simp add: unat_drop_bit_eq drop_bit_eq_div unat_div)
  moreover have "unat v div 8 < 256"
    using assms by simp
  ultimately have a: "unat (ucast (drop_bit 3 v) :: u8) = unat v div 8"
    by (simp add: unsigned_ucast_eq take_bit_nat_eq_self_iff)
  have "unat v mod 8 < 256"
    by (rule less_trans [OF mod_less_divisor]) simp_all
  then have b: "unat (ucast (v AND 7) :: u8) = unat v mod 8"
    by (simp add: unsigned_ucast_eq take_bit_nat_eq_self_iff and_7_unat)
  show ?thesis
    by (simp add: bit_position_def a b)
qed

lemma bit_position_inj:
  assumes "unat v < 2048" and "unat w < 2048" and "bit_position chunk v = bit_position chunk w"
  shows "v = w"
proof -
  have "unat v div 8 = unat w div 8" and "unat v mod 8 = unat w mod 8"
    using assms by (simp_all add: bit_position_eq)
  then have "unat v = unat w"
    by (metis div_mult_mod_eq)
  then show ?thesis
    by (simp add: word_unat_eq_iff)
qed

lemma memmove_down_length:
  "x + n \<le> length base \<Longrightarrow> length (memmove_down base x n past) = length base"
  by (simp add: memmove_down_def)

lemma memmove_down_live:
  assumes "x < m" and "m \<le> length base"
  shows "take (m - 1) (memmove_down base x (m - x) past) = take x base @ drop (Suc x) (take m base)"
proof -
  have d: "drop (x + 1) (base @ [past]) = drop (x + 1) base @ [past]"
    using assms by simp
  have "take (m - 1 - x) (take (m - x) (drop (x + 1) (base @ [past])))
          = take (m - 1 - x) (drop (x + 1) (base @ [past]))"
    by (simp add: min_def)
  also have "\<dots> = take (m - 1 - x) (drop (x + 1) base)"
    unfolding d using assms by simp
  finally have mid: "take (m - 1 - x) (take (m - x) (drop (x + 1) (base @ [past])))
          = take (m - 1 - x) (drop (x + 1) base)" .
  have right: "drop (Suc x) (take m base) = take (m - 1 - x) (drop (x + 1) base)"
    by (simp add: drop_take)
  have "take (m - 1) (memmove_down base x (m - x) past)
          = take x base @ take (m - 1 - x) (take (m - x) (drop (x + 1) (base @ [past])))"
    using assms by (simp add: memmove_down_def)
  then show ?thesis
    by (simp only: mid right)
qed

lemma take_split_nth:
  assumes "x < m" and "m \<le> length base"
  shows "take m base = take x base @ base ! x # drop (Suc x) (take m base)"
proof -
  have "take m base = take x (take m base) @ take m base ! x # drop (Suc x) (take m base)"
    using assms by (intro id_take_nth_drop) simp
  then show ?thesis
    using assms by (simp add: min_def)
qed

lemma scramble_loop_table:
  assumes "length base = T" and "length tbl = T" and "i \<le> T"
    and "distinct (take i tbl @ take (T - i) base)"
    and "set (take i tbl @ take (T - i) base) \<subseteq> S"
  shows "length (fst (scramble_loop i T k s base tbl past)) = T
     \<and> distinct (fst (scramble_loop i T k s base tbl past))
     \<and> set (fst (scramble_loop i T k s base tbl past)) \<subseteq> S"
  using assms
proof (induction i T k s base tbl past rule: scramble_loop.induct)
  case (1 i T k s base tbl past)
  show ?case
  proof (cases "i < T")
    case True
    define s' where "s' = next_seed k s"
    define x where "x = unat (drop_bit 16 s' AND 0x7FFF) mod (T - i)"
    define base' where "base' = memmove_down base x (T - i - x) past"
    define tbl' where "tbl' = tbl[i := base ! x]"
    have x: "x < T - i"
      using True by (simp add: x_def)
    have step: "scramble_loop i T k s base tbl past = scramble_loop (i + 1) T k s' base' tbl' past"
      using True by (subst scramble_loop.simps) (simp add: Let_def s'_def x_def base'_def tbl'_def)
    have lb: "length base' = T"
      using x "1.prems"(1) by (simp add: base'_def memmove_down_length)
    have lt: "length tbl' = T"
      using "1.prems"(2) by (simp add: tbl'_def)
    have live: "take (T - Suc i) base' = take x base @ drop (Suc x) (take (T - i) base)"
      using memmove_down_live [of x "T - i" base past] x "1.prems"(1) by (simp add: base'_def)
    have old: "take (T - i) base = take x base @ base ! x # drop (Suc x) (take (T - i) base)"
      using take_split_nth [of x "T - i" base] x "1.prems"(1) by simp
    have new: "take (Suc i) tbl' = take i tbl @ [base ! x]"
      using True "1.prems"(2) by (simp add: tbl'_def take_Suc_conv_app_nth)
    have d: "distinct (take (Suc i) tbl' @ take (T - Suc i) base')"
      using "1.prems"(4) by (subst (asm) old) (auto simp: new live)
    have st: "set (take (Suc i) tbl' @ take (T - Suc i) base') \<subseteq> S"
      using "1.prems"(5) by (subst (asm) old) (auto simp: new live)
    show ?thesis
      unfolding step
      by (rule "1.IH" [OF True s'_def x_def, folded base'_def tbl'_def]) (use True lb lt d st in simp_all)
  next
    case False
    with "1.prems" have "i = T"
      by simp
    moreover have "scramble_loop i T k s base tbl past = (tbl, s)"
      using False by (subst scramble_loop.simps) simp
    ultimately show ?thesis
      using "1.prems" by simp
  qed
qed

lemma unat_of_nat_u16: "j < 65536 \<Longrightarrow> unat (of_nat j :: u16) = j"
  by (simp add: unat_of_nat)

lemma initial_table:
  fixes k s :: u32 and past :: u16
  assumes "T \<le> 65536"
  defines "r \<equiv> scramble_loop 0 T k s (map of_nat [0..<T]) (replicate T 0) past"
  shows "length (fst r) = T" and "distinct (fst r)" and "\<forall>v \<in> set (fst r). unat v < T"
proof -
  have inj: "inj_on (of_nat :: nat \<Rightarrow> u16) (set [0..<T])"
  proof (rule inj_onI)
    fix a b
    assume "a \<in> set [0..<T]" and "b \<in> set [0..<T]" and eq: "(of_nat a :: u16) = of_nat b"
    then have a: "a < 65536" and b: "b < 65536"
      using assms(1) by simp_all
    have "unat (of_nat a :: u16) = a" and "unat (of_nat b :: u16) = b"
      by (rule unat_of_nat_u16 [OF a], rule unat_of_nat_u16 [OF b])
    then show "a = b"
      by (metis eq)
  qed
  have d: "distinct (take 0 (replicate T (0 :: u16)) @ take (T - 0) (map of_nat [0..<T] :: u16 list))"
    using inj by (simp add: distinct_map)
  have s: "set (take 0 (replicate T (0 :: u16)) @ take (T - 0) (map of_nat [0..<T] :: u16 list))
             \<subseteq> {v. unat v < T}"
    using assms(1) by (auto simp: unat_of_nat_u16)
  have "length (fst r) = T \<and> distinct (fst r) \<and> set (fst r) \<subseteq> {v. unat v < T}"
    unfolding r_def by (rule scramble_loop_table [OF _ _ _ d s]) simp_all
  then show "length (fst r) = T" and "distinct (fst r)" and "\<forall>v \<in> set (fst r). unat v < T"
    by auto
qed

lemma table_positions:
  fixes k s :: u32 and past :: u16
  assumes "0 < slice_size" and "slice_size \<le> 256" and "n \<le> slice_size * 8"
  defines "tbl \<equiv> fst (scramble_loop 0 (slice_size * 8) k s (map of_nat [0..<slice_size * 8])
                        (replicate (slice_size * 8) 0) past)"
  shows "inj_on (\<lambda>j. bit_position chunk (tbl ! j)) {i..<n}"
    and "(\<lambda>j. bit_position chunk (tbl ! j)) ` {i..<n} \<subseteq> region chunk (chunk + slice_size)"
proof -
  have T: "slice_size * 8 \<le> 65536" "slice_size * 8 \<le> 2048"
    using assms(2) by simp_all
  have len: "length tbl = slice_size * 8" and dist: "distinct tbl"
    and small: "\<forall>v \<in> set tbl. unat v < slice_size * 8"
    unfolding tbl_def using initial_table [OF T(1), of k s past] by simp_all
  have v: "unat (tbl ! j) < slice_size * 8" if "j < n" for j
    using that small len assms(3) by simp
  show "inj_on (\<lambda>j. bit_position chunk (tbl ! j)) {i..<n}"
  proof (rule inj_onI)
    fix a b
    assume a: "a \<in> {i..<n}" and b: "b \<in> {i..<n}"
      and eq: "bit_position chunk (tbl ! a) = bit_position chunk (tbl ! b)"
    have "tbl ! a = tbl ! b"
      by (rule bit_position_inj [OF _ _ eq]) (use v [of a] v [of b] a b T(2) in simp_all)
    then show "a = b"
      using dist a b len assms(3) by (simp add: nth_eq_iff_index_eq)
  qed
  show "(\<lambda>j. bit_position chunk (tbl ! j)) ` {i..<n} \<subseteq> region chunk (chunk + slice_size)"
  proof
    fix g
    assume "g \<in> (\<lambda>j. bit_position chunk (tbl ! j)) ` {i..<n}"
    then obtain j where j: "j < n" and g: "g = bit_position chunk (tbl ! j)"
      by auto
    have "unat (tbl ! j) < 2048"
      using v [OF j] T(2) by simp
    then have "g = (chunk + unat (tbl ! j) div 8, unat (tbl ! j) mod 8)"
      by (simp add: g bit_position_eq)
    moreover have "unat (tbl ! j) div 8 < slice_size"
      using v [OF j] by (simp add: less_mult_imp_div_less mult.commute)
    ultimately show "g \<in> region chunk (chunk + slice_size)"
      by (simp add: region_def)
  qed
qed

subsection \<open>The loop over the slices\<close>

lemma swap_bound_even: "even (min (slice_size * 8) ((chunk_size * 8) mod 2 ^ 32 :: nat))"
proof -
  have "even ((chunk_size * 8) mod 2 ^ 32 :: nat)"
    by (rule dvd_mod) simp_all
  then show ?thesis
    by (simp add: min_def)
qed

lemma region_union: "a \<le> b \<Longrightarrow> b \<le> c \<Longrightarrow> region a b \<union> region b c = region a c"
  by (auto simp: region_def)

lemma region_disjoint: "region a b \<inter> region b c = {}"
  by (auto simp: region_def)

lemma region_mono: "a' \<le> a \<Longrightarrow> b \<le> b' \<Longrightarrow> region a b \<subseteq> region a' b'"
  by (auto simp: region_def)

lemma slices_perm_step:
  assumes "chunk < max_chunk" and "0 < slice_size"
  shows "slices_perm chunk max_chunk chunk_size k s slice_size past g =
     swap_perm 0 (min (slice_size * 8) ((chunk_size * 8) mod 2 ^ 32))
       (fst (scramble_loop 0 (slice_size * 8) k s (map of_nat [0..<slice_size * 8])
               (replicate (slice_size * 8) 0) past)) chunk
       (slices_perm (chunk + slice_size) max_chunk ((chunk_size + 2 ^ 32 - slice_size) mod 2 ^ 32)
          k (snd (scramble_loop 0 (slice_size * 8) k s (map of_nat [0..<slice_size * 8])
               (replicate (slice_size * 8) 0) past)) slice_size past g)"
  using assms by (subst slices_perm.simps) (simp add: Let_def)

lemma slices_perm_done:
  "\<not> chunk < max_chunk \<Longrightarrow> slices_perm chunk max_chunk chunk_size k s slice_size past g = g"
  by (subst slices_perm.simps) simp

lemma slices_perm_involution:
  assumes "0 < slice_size" and "slice_size \<le> 256" and "max_chunk \<le> chunk + m * slice_size"
  shows "involution_on (region chunk (chunk + m * slice_size))
           (slices_perm chunk max_chunk chunk_size k s slice_size past)"
  using assms(3)
proof (induction m arbitrary: chunk chunk_size s)
  case 0
  then have "\<not> chunk < max_chunk"
    by simp
  then show ?case
    by (intro involution_onI) (simp_all add: slices_perm_done)
next
  case (Suc m)
  show ?case
  proof (cases "chunk < max_chunk")
    case True
    define r where "r = scramble_loop 0 (slice_size * 8) k s (map of_nat [0..<slice_size * 8])
               (replicate (slice_size * 8) 0) past"
    define n where "n = min (slice_size * 8) ((chunk_size * 8) mod 2 ^ 32)"
    define cs' where "cs' = (chunk_size + 2 ^ 32 - slice_size) mod 2 ^ 32"
    have n: "n \<le> slice_size * 8" "even n"
      unfolding n_def using swap_bound_even [of slice_size chunk_size] by simp_all
    have inj: "inj_on (\<lambda>j. bit_position chunk (fst r ! j)) {0..<n}"
      and sub: "(\<lambda>j. bit_position chunk (fst r ! j)) ` {0..<n} \<subseteq> region chunk (chunk + slice_size)"
      unfolding r_def using table_positions [OF assms(1,2) n(1), of chunk k s past 0] by simp_all
    have "involution_on ((\<lambda>j. bit_position chunk (fst r ! j)) ` {0..<n}) (swap_perm 0 n (fst r) chunk)"
      by (rule swap_perm_involution) (use n inj in simp_all)
    then have one: "involution_on (region chunk (chunk + slice_size)) (swap_perm 0 n (fst r) chunk)"
      using sub by (rule involution_on_mono)
    have "max_chunk \<le> chunk + slice_size + m * slice_size"
      using Suc.prems by (simp add: algebra_simps)
    then have rest: "involution_on (region (chunk + slice_size) (chunk + slice_size + m * slice_size))
           (slices_perm (chunk + slice_size) max_chunk cs' k (snd r) slice_size past)"
      by (rule Suc.IH)
    have "involution_on (region chunk (chunk + slice_size)
              \<union> region (chunk + slice_size) (chunk + slice_size + m * slice_size))
            (\<lambda>g. swap_perm 0 n (fst r) chunk
                   (slices_perm (chunk + slice_size) max_chunk cs' k (snd r) slice_size past g))"
      using one rest region_disjoint by (rule involution_on_comp)
    moreover have "(\<lambda>g. swap_perm 0 n (fst r) chunk
                   (slices_perm (chunk + slice_size) max_chunk cs' k (snd r) slice_size past g))
                 = slices_perm chunk max_chunk chunk_size k s slice_size past"
      by (rule ext) (simp add: slices_perm_step [OF True assms(1)] r_def n_def cs'_def)
    moreover have "region chunk (chunk + slice_size)
              \<union> region (chunk + slice_size) (chunk + slice_size + m * slice_size)
            = region chunk (chunk + Suc m * slice_size)"
      by (subst region_union) (simp_all add: algebra_simps)
    ultimately show ?thesis
      by simp
  next
    case False
    then show ?thesis
      by (intro involution_onI) (simp_all add: slices_perm_done)
  qed
qed

lemma slices_loop_image:
  assumes "0 < slice_size" and "slice_size \<le> 256" and "max_chunk \<le> chunk + m * slice_size"
    and "chunk + m * slice_size \<le> length mem"
  shows "\<exists>mem'. slices_loop mem chunk max_chunk chunk_size k s slice_size past
                  = Inr (mem', slices_seed chunk max_chunk k s slice_size past)
           \<and> bit_image (slices_perm chunk max_chunk chunk_size k s slice_size past) mem mem'"
  using assms(3,4)
proof (induction m arbitrary: chunk chunk_size s mem)
  case 0
  then have fin: "\<not> chunk < max_chunk"
    by simp
  then have "slices_loop mem chunk max_chunk chunk_size k s slice_size past = Inr (mem, s)"
    by (subst slices_loop.simps) simp
  moreover have "slices_seed chunk max_chunk k s slice_size past = s"
    using fin by (subst slices_seed.simps) simp
  moreover have "bit_image (slices_perm chunk max_chunk chunk_size k s slice_size past) mem mem"
    using fin by (simp add: bit_image_def slices_perm_done)
  ultimately show ?case
    by simp
next
  case (Suc m)
  show ?case
  proof (cases "chunk < max_chunk")
    case True
    define r where "r = scramble_loop 0 (slice_size * 8) k s (map of_nat [0..<slice_size * 8])
               (replicate (slice_size * 8) 0) past"
    define n where "n = min (slice_size * 8) ((chunk_size * 8) mod 2 ^ 32)"
    define cs' where "cs' = (chunk_size + 2 ^ 32 - slice_size) mod 2 ^ 32"
    have n: "n \<le> slice_size * 8" "even n"
      unfolding n_def using swap_bound_even [of slice_size chunk_size] by simp_all
    have sub: "(\<lambda>j. bit_position chunk (fst r ! j)) ` {0..<n} \<subseteq> region chunk (chunk + slice_size)"
      unfolding r_def using table_positions(2) [OF assms(1,2) n(1), of chunk k s past 0] by simp
    have inb: "\<forall>j. 0 \<le> j \<and> j < n \<longrightarrow> fst (bit_position chunk (fst r ! j)) < length mem"
    proof (intro allI impI)
      fix j
      assume "0 \<le> j \<and> j < n"
      then have "bit_position chunk (fst r ! j) \<in> region chunk (chunk + slice_size)"
        using sub by auto
      then have "fst (bit_position chunk (fst r ! j)) < chunk + slice_size"
        by (simp add: region_def)
      also have "\<dots> \<le> chunk + Suc m * slice_size"
        by simp
      finally show "fst (bit_position chunk (fst r ! j)) < length mem"
        using Suc.prems(2) by simp
    qed
    obtain mem1 where l1: "swap_loop 0 n (fst r) chunk mem = Inr mem1"
      and im1: "bit_image (swap_perm 0 n (fst r) chunk) mem mem1"
      using swap_loop_image [OF inb _ n(2)] by auto
    have len1: "length mem1 = length mem"
      using im1 by (simp add: bit_image_def)
    have b1: "max_chunk \<le> chunk + slice_size + m * slice_size"
      using Suc.prems(1) by (simp add: algebra_simps)
    have b2: "chunk + slice_size + m * slice_size \<le> length mem1"
      using Suc.prems(2) len1 by (simp add: algebra_simps)
    obtain mem' where l2: "slices_loop mem1 (chunk + slice_size) max_chunk cs' k (snd r) slice_size past
                  = Inr (mem', slices_seed (chunk + slice_size) max_chunk k (snd r) slice_size past)"
      and im2: "bit_image (slices_perm (chunk + slice_size) max_chunk cs' k (snd r) slice_size past)
                  mem1 mem'"
      using Suc.IH [OF b1 b2] by blast
    have inv: "involution_on (region (chunk + slice_size) (chunk + slice_size + m * slice_size))
           (slices_perm (chunk + slice_size) max_chunk cs' k (snd r) slice_size past)"
      using assms(1,2) b1 by (rule slices_perm_involution)
    have "region (chunk + slice_size) (chunk + slice_size + m * slice_size) \<subseteq> region 0 (length mem)"
      using b2 len1 by (intro region_mono) simp_all
    then have v: "fst (slices_perm (chunk + slice_size) max_chunk cs' k (snd r) slice_size past (q, c))
                < length mem
             \<and> snd (slices_perm (chunk + slice_size) max_chunk cs' k (snd r) slice_size past (q, c)) < 8"
      if "q < length mem" and "c < 8" for q c
      using involution_on_valid [OF inv _ that] by simp
    have "bit_image (\<lambda>g. swap_perm 0 n (fst r) chunk
                   (slices_perm (chunk + slice_size) max_chunk cs' k (snd r) slice_size past g))
            mem mem'"
      using im1 im2 v by (rule bit_image_comp)
    moreover have "(\<lambda>g. swap_perm 0 n (fst r) chunk
                   (slices_perm (chunk + slice_size) max_chunk cs' k (snd r) slice_size past g))
                 = slices_perm chunk max_chunk chunk_size k s slice_size past"
      by (rule ext) (simp add: slices_perm_step [OF True assms(1)] r_def n_def cs'_def)
    moreover have "slices_loop mem chunk max_chunk chunk_size k s slice_size past
            = Inr (mem', slices_seed (chunk + slice_size) max_chunk k (snd r) slice_size past)"
      using True assms(1) l1 l2
      by (subst slices_loop.simps) (simp add: Let_def r_def n_def cs'_def case_prod_beta)
    moreover have "slices_seed chunk max_chunk k s slice_size past
            = slices_seed (chunk + slice_size) max_chunk k (snd r) slice_size past"
      using True assms(1) by (subst slices_seed.simps) (simp add: Let_def r_def)
    ultimately show ?thesis
      by simp
  next
    case False
    then have "slices_loop mem chunk max_chunk chunk_size k s slice_size past = Inr (mem, s)"
      by (subst slices_loop.simps) simp
    moreover have "slices_seed chunk max_chunk k s slice_size past = s"
      using False by (subst slices_seed.simps) simp
    moreover have "bit_image (slices_perm chunk max_chunk chunk_size k s slice_size past) mem mem"
      using False by (simp add: bit_image_def slices_perm_done)
    ultimately show ?thesis
      by simp
  qed
qed

subsection \<open>The pass\<close>

lemma descramble_chunk_image:
  assumes "0 < slice_size" and "slice_size \<le> 256" and "chunk_size \<le> m * slice_size"
    and "chunk + m * slice_size \<le> length mem"
  shows "\<exists>mem'. descramble_chunk mem chunk chunk_size seed slice_size past
                  = Inr (True, mem',
                         slices_seed chunk (chunk + chunk_size) (fst seed) (snd seed) slice_size past)
           \<and> bit_image (slices_perm chunk (chunk + chunk_size) chunk_size (fst seed) (snd seed)
                          slice_size past) mem mem'"
proof -
  have "chunk + chunk_size \<le> chunk + m * slice_size"
    using assms(3) by simp
  then obtain mem' where
    "slices_loop mem chunk (chunk + chunk_size) chunk_size (fst seed) (snd seed) slice_size past
       = Inr (mem', slices_seed chunk (chunk + chunk_size) (fst seed) (snd seed) slice_size past)"
    and "bit_image (slices_perm chunk (chunk + chunk_size) chunk_size (fst seed) (snd seed)
                          slice_size past) mem mem'"
    using slices_loop_image [OF assms(1,2) _ assms(4)] by blast
  moreover have "\<not> slice_size * 8 < 4"
    using assms(1) by simp
  ultimately show ?thesis
    by (simp add: descramble_chunk_def)
qed

lemma descramble_chunk_restores:
  assumes "0 < slice_size" and "slice_size \<le> 256" and "chunk_size \<le> m * slice_size"
    and "chunk + m * slice_size \<le> length mem"
  shows "\<exists>mem' seed1'.
           descramble_chunk mem chunk chunk_size seed slice_size past = Inr (True, mem', seed1')
           \<and> descramble_chunk mem' chunk chunk_size seed slice_size past = Inr (True, mem, seed1')"
proof -
  let ?f = "slices_perm chunk (chunk + chunk_size) chunk_size (fst seed) (snd seed) slice_size past"
  let ?s = "slices_seed chunk (chunk + chunk_size) (fst seed) (snd seed) slice_size past"
  obtain mem1 where r1: "descramble_chunk mem chunk chunk_size seed slice_size past
                           = Inr (True, mem1, ?s)"
    and im1: "bit_image ?f mem mem1"
    using descramble_chunk_image [OF assms] by blast
  have len: "length mem1 = length mem"
    using im1 by (simp add: bit_image_def)
  then have "chunk + m * slice_size \<le> length mem1"
    using assms(4) by simp
  then obtain mem2 where r2: "descramble_chunk mem1 chunk chunk_size seed slice_size past
                           = Inr (True, mem2, ?s)"
    and im2: "bit_image ?f mem1 mem2"
    using descramble_chunk_image [OF assms(1,2,3)] by blast
  have "chunk + chunk_size \<le> chunk + m * slice_size"
    using assms(3) by simp
  then have inv: "involution_on (region chunk (chunk + m * slice_size)) ?f"
    using assms(1,2) by (intro slices_perm_involution)
  have "region chunk (chunk + m * slice_size) \<subseteq> region 0 (length mem)"
    using assms(4) by (intro region_mono) simp_all
  then have "mem2 = mem"
    using im1 im2 inv by (intro bit_image_twice)
  with r1 r2 show ?thesis
    by blast
qed

text \<open>
  \<^bold>\<open>C4\<close>, amended.  For a slice size from 1 to \<open>0x100\<close> (the pass is called
  with \<open>0x100\<close> and \<open>0x80\<close>) and a buffer that holds every slice the pass
  touches (\<open>m\<close> slices cover the chunk and lie inside the buffer), the pass
  returns, and applying it again with the same initial generator state
  gives the original buffer back, for every generator state and every
  chunk size.  In particular this holds for scenario S6: any \<open>0x200\<close> bytes
  of data, slice size \<open>0x80\<close> and the state \<open>(0x3B9A73C9, 0x12345678)\<close>.
\<close>

theorem bit_swap_self_inverse:
  assumes "0 < slice_size" and "slice_size \<le> 0x100" and "chunk_size \<le> m * slice_size"
    and "chunk + m * slice_size \<le> length mem"
  shows "(\<exists>mem' seed1'.
           descramble_chunk mem chunk chunk_size seed slice_size past = Inr (True, mem', seed1')
           \<and> descramble_chunk mem' chunk chunk_size seed slice_size past = Inr (True, mem, seed1'))
     \<and> (length data = 0x200 \<longrightarrow>
          (\<exists>data' seed1'.
             descramble_chunk data 0 0x200 (0x3B9A73C9, 0x12345678) 0x80 past
               = Inr (True, data', seed1')
             \<and> descramble_chunk data' 0 0x200 (0x3B9A73C9, 0x12345678) 0x80 past
               = Inr (True, data, seed1')))"
proof -
  have "\<exists>data' seed1'.
             descramble_chunk data 0 0x200 (0x3B9A73C9, 0x12345678) 0x80 past
               = Inr (True, data', seed1')
             \<and> descramble_chunk data' 0 0x200 (0x3B9A73C9, 0x12345678) 0x80 past
               = Inr (True, data, seed1')"
    if "length data = 0x200"
    by (rule descramble_chunk_restores [where m = 4]) (use that in simp_all)
  then show ?thesis
    using descramble_chunk_restores [OF assms] by blast
qed

theorem bit_swap_self_inverse_witness:
  "(0 :: nat) < 0x80 \<and> (0x80 :: nat) \<le> 0x100 \<and> (0x200 :: nat) \<le> 4 * 0x80
   \<and> 0 + 4 * 0x80 \<le> length (replicate 0x200 (0xA5 :: u8))
   \<and> length (replicate 0x200 (0x5A :: u8)) = 0x200
   \<and> (\<exists>mem' seed1'.
         descramble_chunk (replicate 0x200 0xA5) 0 0x200 (0x3B9A73C9, 0x12345678) 0x80 0
           = Inr (True, mem', seed1')
         \<and> descramble_chunk mem' 0 0x200 (0x3B9A73C9, 0x12345678) 0x80 0
           = Inr (True, replicate 0x200 0xA5, seed1'))
   \<and> (\<exists>data' seed1'.
         descramble_chunk (replicate 0x200 0x5A) 0 0x200 (0x3B9A73C9, 0x12345678) 0x80 0
           = Inr (True, data', seed1')
         \<and> descramble_chunk data' 0 0x200 (0x3B9A73C9, 0x12345678) 0x80 0
           = Inr (True, replicate 0x200 0x5A, seed1'))"
  using bit_swap_self_inverse [where slice_size = "0x80" and m = 4 and chunk_size = "0x200"
      and chunk = 0 and mem = "replicate 0x200 0xA5" and data = "replicate 0x200 0x5A"
      and seed = "(0x3B9A73C9, 0x12345678)" and past = 0]
  by simp

subsection \<open>A slice size above 0x100\<close>

lemma scramble_loop_prefix:
  "j < i \<Longrightarrow> fst (scramble_loop i T k s base tbl past) ! j = tbl ! j"
proof (induction i T k s base tbl past rule: scramble_loop.induct)
  case (1 i T k s base tbl past)
  show ?case
  proof (cases "i < T")
    case True
    then show ?thesis
      using "1.prems" "1.IH" [OF True refl refl]
      by (subst scramble_loop.simps) (simp add: Let_def)
  next
    case False
    then show ?thesis
      by (subst scramble_loop.simps) simp
  qed
qed

lemma scramble_nth:
  assumes "i < T" and "i \<le> j" and "i < length tbl"
  shows "fst (scramble_loop i T k s base tbl past) ! j =
           (if j = i then base ! (unat (drop_bit 16 (next_seed k s) AND 0x7FFF) mod (T - i))
            else fst (scramble_loop (Suc i) T k (next_seed k s)
                    (memmove_down base (unat (drop_bit 16 (next_seed k s) AND 0x7FFF) mod (T - i))
                       (T - i - unat (drop_bit 16 (next_seed k s) AND 0x7FFF) mod (T - i)) past)
                    (tbl[i := base ! (unat (drop_bit 16 (next_seed k s) AND 0x7FFF) mod (T - i))])
                    past) ! j)"
  using assms
  by (subst scramble_loop.simps) (simp add: Let_def scramble_loop_prefix)

lemma nth_append3:
  "length A = a \<Longrightarrow> length B = b \<Longrightarrow>
   (A @ B @ C) ! y = (if y < a then A ! y else if y < a + b then B ! (y - a) else C ! (y - a - b))"
  by (auto simp: nth_append)

lemma memmove_down_nth:
  assumes "y < length base" and "x + n \<le> length base"
  shows "memmove_down base x n past ! y =
           (if y < x then base ! y
            else if y < x + n then (if y + 1 < length base then base ! (y + 1) else past)
            else base ! y)"
proof -
  define mid where "mid = take n (drop (x + 1) (base @ [past]))"
  have lm: "length mid = n"
    using assms(2) by (simp add: mid_def)
  have lx: "length (take x base) = x"
    using assms(2) by simp
  have split: "memmove_down base x n past ! y =
      (if y < x then take x base ! y
       else if y < x + n then mid ! (y - x) else drop (x + n) base ! (y - x - n))"
    unfolding memmove_down_def mid_def [symmetric] by (rule nth_append3 [OF lx lm])
  have one: "take x base ! y = base ! y" if "y < x"
    using that by simp
  have two: "mid ! (y - x) = (if y + 1 < length base then base ! (y + 1) else past)"
    if "x \<le> y" and "y < x + n"
  proof -
    have "y - x < n"
      using that by simp
    then have "mid ! (y - x) = drop (x + 1) (base @ [past]) ! (y - x)"
      unfolding mid_def by (rule nth_take)
    also have "\<dots> = (base @ [past]) ! (x + 1 + (y - x))"
      using assms(2) by (intro nth_drop) simp
    also have "x + 1 + (y - x) = y + 1"
      using that by simp
    also have "(base @ [past]) ! (y + 1) = (if y + 1 < length base then base ! (y + 1) else past)"
    proof (cases "y + 1 < length base")
      case True
      then show ?thesis
        by (simp add: nth_append)
    next
      case False
      then have "y + 1 = length base"
        using assms(1) by simp
      then show ?thesis
        by (simp add: nth_append)
    qed
    finally show ?thesis .
  qed
  have three: "drop (x + n) base ! (y - x - n) = base ! y" if "x + n \<le> y"
    using that assms by simp
  show ?thesis
    unfolding split using one two three by (auto simp: not_less)
qed

lemma wide_seeds:
  "next_seed 0xFFFFFFFF 0x0408040F = 0xFBF82AFA" "next_seed 0xFFFFFFFF 0xFBF82AFA = 0x0408040F"
  by (simp_all add: next_seed_def SEED_INCREMENT_def)

lemma wide_table:
  assumes "tbl = fst (scramble_loop 0 4096 0xFFFFFFFF 0x0408040F (map of_nat [0..<4096])
                        (replicate 4096 0) 0)"
  shows "tbl ! 0 = 3064" "tbl ! Suc 0 = 1032" "tbl ! 2 = 3080" "tbl ! 3 = 1033"
    "tbl ! 4 = 3096" "tbl ! 5 = 1034" "tbl ! 6 = 3112" "tbl ! 7 = 1035"
  unfolding assms
  by (simp_all add: scramble_nth wide_seeds memmove_down_nth memmove_down_length)

lemma swap_loop_end:
  "\<not> i < n \<Longrightarrow> swap_loop i n tbl chunk mem = Inr mem"
  by (subst swap_loop.simps) simp

lemma wide_swap_first:
  "swap_bits (one_byte_set 129 1) 0 3064 1032 = Inr (one_byte_set 127 1)"
  "swap_bits (one_byte_set 127 1) 0 3080 1033 = Inr (one_byte_set 127 1)"
  "swap_bits (one_byte_set 127 1) 0 3096 1034 = Inr (one_byte_set 127 1)"
  "swap_bits (one_byte_set 127 1) 0 3112 1035 = Inr (one_byte_set 127 1)"
  by (simp_all add: swap_bits_def Let_def one_byte_set_def)
    (rule nth_equalityI; simp add: nth_list_update)+

lemma wide_swap_second:
  "swap_bits (one_byte_set 127 1) 0 3064 1032 = Inr (one_byte_set 129 1)"
  "swap_bits (one_byte_set 129 1) 0 3080 1033 = Inr (one_byte_set 129 2)"
  "swap_bits (one_byte_set 129 2) 0 3096 1034 = Inr (one_byte_set 129 2)"
  "swap_bits (one_byte_set 129 2) 0 3112 1035 = Inr (one_byte_set 129 2)"
  by (simp_all add: swap_bits_def Let_def one_byte_set_def)
    (rule nth_equalityI; simp add: nth_list_update)+

lemma wide_swaps:
  assumes "tbl = fst (scramble_loop 0 4096 0xFFFFFFFF 0x0408040F (map of_nat [0..<4096])
                        (replicate 4096 0) 0)"
  shows "swap_loop 0 8 tbl 0 (one_byte_set 129 1) = Inr (one_byte_set 127 1)"
    and "swap_loop 0 8 tbl 0 (one_byte_set 127 1) = Inr (one_byte_set 129 2)"
proof -
  note t = wide_table [OF assms]
  have "swap_loop 0 8 tbl 0 (one_byte_set 129 1) = swap_loop 2 8 tbl 0 (one_byte_set 127 1)"
    by (subst swap_loop.simps) (simp add: t wide_swap_first del: add_2_eq_Suc add_2_eq_Suc')
  also have "\<dots> = swap_loop 4 8 tbl 0 (one_byte_set 127 1)"
    by (subst swap_loop.simps) (simp add: t wide_swap_first del: add_2_eq_Suc add_2_eq_Suc')
  also have "\<dots> = swap_loop 6 8 tbl 0 (one_byte_set 127 1)"
    by (subst swap_loop.simps) (simp add: t wide_swap_first del: add_2_eq_Suc add_2_eq_Suc')
  also have "\<dots> = swap_loop 8 8 tbl 0 (one_byte_set 127 1)"
    by (subst swap_loop.simps) (simp add: t wide_swap_first del: add_2_eq_Suc add_2_eq_Suc')
  finally show "swap_loop 0 8 tbl 0 (one_byte_set 129 1) = Inr (one_byte_set 127 1)"
    by (simp add: swap_loop_end)
  have "swap_loop 0 8 tbl 0 (one_byte_set 127 1) = swap_loop 2 8 tbl 0 (one_byte_set 129 1)"
    by (subst swap_loop.simps) (simp add: t wide_swap_second del: add_2_eq_Suc add_2_eq_Suc')
  also have "\<dots> = swap_loop 4 8 tbl 0 (one_byte_set 129 2)"
    by (subst swap_loop.simps) (simp add: t wide_swap_second del: add_2_eq_Suc add_2_eq_Suc')
  also have "\<dots> = swap_loop 6 8 tbl 0 (one_byte_set 129 2)"
    by (subst swap_loop.simps) (simp add: t wide_swap_second del: add_2_eq_Suc add_2_eq_Suc')
  also have "\<dots> = swap_loop 8 8 tbl 0 (one_byte_set 129 2)"
    by (subst swap_loop.simps) (simp add: t wide_swap_second del: add_2_eq_Suc add_2_eq_Suc')
  finally show "swap_loop 0 8 tbl 0 (one_byte_set 127 1) = Inr (one_byte_set 129 2)"
    by (simp add: swap_loop_end)
qed

lemma wide_pass:
  "pass_buffer (descramble_chunk (one_byte_set 129 1) 0 1 (0xFFFFFFFF, 0x0408040F) 0x200 0)
     = Some (one_byte_set 127 1)"
  "pass_buffer (descramble_chunk (one_byte_set 127 1) 0 1 (0xFFFFFFFF, 0x0408040F) 0x200 0)
     = Some (one_byte_set 129 2)"
  unfolding descramble_chunk_def pass_buffer_def
   apply (subst slices_loop.simps, simp add: Let_def case_prod_beta wide_swaps)
   apply (subst slices_loop.simps, simp)
  apply (subst slices_loop.simps, simp add: Let_def case_prod_beta wide_swaps)
  apply (subst slices_loop.simps, simp)
  done

text \<open>
  \<^bold>\<open>C4\<close>, as stated, fails for a slice size above \<open>0x100\<close>.  The byte
  offsets \<^verbatim>\<open>p0\<close> and \<^verbatim>\<open>p1\<close> are \<^verbatim>\<open>uint8_t\<close>, so with slice size \<open>0x200\<close>
  the table entries 3080 and 1033 both name byte 129, and 3064 names byte
  127.  With the generator state \<open>(0xFFFFFFFF, 0x0408040F)\<close> and chunk size
  1 the pass makes four exchanges; on 256 zero bytes with byte 129 set to 1
  it returns the buffer with byte 127 set to 1, and applied to that buffer
  with the same state it returns the buffer with byte 129 set to 2, which is
  not the original.
\<close>

theorem bit_swap_counterexample:
  "pass_buffer (descramble_chunk (one_byte_set 129 1) 0 1 (0xFFFFFFFF, 0x0408040F) 0x200 0)
     = Some (one_byte_set 127 1)
   \<and> pass_buffer (descramble_chunk (one_byte_set 127 1) 0 1 (0xFFFFFFFF, 0x0408040F) 0x200 0)
     = Some (one_byte_set 129 2)
   \<and> one_byte_set 129 2 \<noteq> one_byte_set 129 1"
proof -
  have "one_byte_set 129 2 ! 129 \<noteq> one_byte_set 129 1 ! 129"
    by (simp add: one_byte_set_def)
  then have "one_byte_set 129 2 \<noteq> one_byte_set 129 1"
    by metis
  with wide_pass show ?thesis
    by blast
qed

section \<open>descrambler1 and the fence\<close>

subsection \<open>The faults of the two stages\<close>










subsection \<open>The bit-swap stage inside the buffer\<close>








subsection \<open>A short buffer\<close>







section \<open>Proofs: descrambler2\<close>

subsection \<open>The marker scan\<close>

lemma marker_scan_le: "marker_scan buf k \<le> k"
proof (induction buf k rule: marker_scan.induct)
  case (1 buf k)
  then show ?case
    by (subst marker_scan.simps) auto
qed

lemma marker_scan_above:
  "marker_scan buf k < j \<Longrightarrow> j \<le> k \<Longrightarrow> buf ! j \<noteq> 0xff"
proof (induction buf k rule: marker_scan.induct)
  case (1 buf k)
  show ?case
  proof (cases "k > 0 \<and> buf ! k \<noteq> 0xff")
    case True
    then have eq: "marker_scan buf k = marker_scan buf (k - 1)"
      by (subst marker_scan.simps) simp
    show ?thesis
    proof (cases "j = k")
      case True
      with \<open>k > 0 \<and> buf ! k \<noteq> 0xff\<close> show ?thesis by simp
    next
      case False
      with "1.prems" eq "1.IH" [OF True] show ?thesis by simp
    qed
  next
    case False
    have "marker_scan buf k = k"
      by (subst marker_scan.simps) (use False in auto)
    with "1.prems" show ?thesis by simp
  qed
qed

lemma marker_scan_hit: "marker_scan buf k = 0 \<or> buf ! marker_scan buf k = 0xff"
proof (induction buf k rule: marker_scan.induct)
  case (1 buf k)
  then show ?case
    by (subst (1 2) marker_scan.simps) auto
qed

lemma marker_found_iff:
  "(4 \<le> marker_scan buf k \<and> buf ! marker_scan buf k = 0xff)
     \<longleftrightarrow> (\<exists>e. 4 \<le> e \<and> e \<le> k \<and> buf ! e = 0xff)"
proof
  assume "4 \<le> marker_scan buf k \<and> buf ! marker_scan buf k = 0xff"
  then show "\<exists>e. 4 \<le> e \<and> e \<le> k \<and> buf ! e = 0xff"
    using marker_scan_le [of buf k] by blast
next
  assume "\<exists>e. 4 \<le> e \<and> e \<le> k \<and> buf ! e = 0xff"
  then obtain e where e: "4 \<le> e" "e \<le> k" "buf ! e = 0xff"
    by blast
  have "\<not> marker_scan buf k < e"
    using marker_scan_above [of buf k e] e by blast
  then have "4 \<le> marker_scan buf k"
    using e(1) by simp
  then show "4 \<le> marker_scan buf k \<and> buf ! marker_scan buf k = 0xff"
    using marker_scan_hit [of buf k] by auto
qed

lemma reports_marker_iff:
  assumes "length buf mod 4 = 0" and "16 \<le> length buf"
  shows "reports (descrambler2 buf seeds past) MarkerNotFound
           \<longleftrightarrow> \<not> (4 \<le> d2_marker buf \<and> buf ! d2_marker buf = 0xff)"
  using assms
  by (auto simp: reports_def descrambler2_def d2_marker_def Let_def split: prod.splits sum.splits)

lemma S4_like_marker: "d2_marker S4_like = 6"
  by (simp add: d2_marker_def S4_like_def marker_scan.simps nth_append)

lemma S4_tail: "getbe32 S4_like 16 = 0" "getbe32 S4_like 12 = 0" "getbe32 S4_like 8 = 0"
  by (simp_all add: S4_like_def getbe32_def nth_append)

lemma S4_like_loop:
  "d2_loop 0 6 S4_like SEED_CONSTANT 0 seeds_example 0 0 0 =
     ([0, 0, 0, 0xB0, 0xF7, 0xB0, 0xFF, 0, 0, 0, 0, 0, 0, 0, 0, 0, 0, 0, 0, 0],
      seeds_example\<lparr>table := [0x14F75973, 0x2F09, 0x2F09]\<rparr>)"
  apply (simp add: S4_like_def SEED_CONSTANT_def seeds_example_def)
  apply (subst d2_loop.simps, simp add: Let_def next_seed_def SEED_INCREMENT_def word_le_nat_alt nth_append)
  apply (subst d2_loop.simps, simp add: Let_def next_seed_def SEED_INCREMENT_def word_le_nat_alt nth_append)
  apply (subst d2_loop.simps, simp add: Let_def next_seed_def SEED_INCREMENT_def word_le_nat_alt nth_append)
  apply (subst d2_loop.simps, simp add: Let_def next_seed_def SEED_INCREMENT_def word_le_nat_alt nth_append)
  apply (subst d2_loop.simps, simp add: Let_def next_seed_def SEED_INCREMENT_def word_le_nat_alt nth_append)
  apply (subst d2_loop.simps, simp add: Let_def next_seed_def SEED_INCREMENT_def word_le_nat_alt nth_append)
  apply (subst d2_loop.simps, simp add: Let_def next_seed_def SEED_INCREMENT_def word_le_nat_alt nth_append)
  done

lemma S4_like_checksum:
  "checksum_loop 0 4 [0, 0, 0, 0xB0, 0xF7, 0xB0, 0, 0, 0, 0, 0, 0, 0, 0, 0, 0, 0, 0, 0, 0] (0, 0)
     = (0xFFFFFF4F, 0xFFFFFF50)"
  apply (subst checksum_loop.simps, simp add: getbe32_def)
  apply (subst checksum_loop.simps, simp add: getbe32_def)
  done

lemma S4_like_run: "descrambler2 S4_like seeds_example 0 = 
   Inr (Some ChecksumMismatch, [0, 0, 0, 0xB0, 0xF7, 0xB0, 0, 0, 0, 0, 0, 0, 0, 0, 0, 0, 0, 0, 0, 0], seeds_example\<lparr>table := [0x14F75973, 0x2F09, 0x2F09]\<rparr>)"
proof -
  have len: "length S4_like = 20"
    by (simp add: S4_like_def)
  have m: "marker_scan S4_like 7 = 6"
    using S4_like_marker by (simp add: d2_marker_def len)
  have hit: "S4_like ! 6 = 0xff"
    by (simp add: S4_like_def nth_append)
  have t0: "table seeds_example ! 0 = 0"
    by (simp add: seeds_example_def)
  show ?thesis
    by (simp add: descrambler2_def len m hit S4_tail S4_like_loop S4_like_checksum Let_def t0)
qed

subsection \<open>The checksum loop and the byte loop\<close>

lemma checksum_loop_fold:
  "j \<le> k \<Longrightarrow>
   checksum_loop (4 * j) (4 * k) buf (c0, c1) =
     (fold (\<lambda>w c. c XOR NOT w) (map (\<lambda>j. getbe32 buf (4 * j)) [j..<k]) c0,
      fold (\<lambda>w c. c - w) (map (\<lambda>j. getbe32 buf (4 * j)) [j..<k]) c1)"
proof (induction "k - j" arbitrary: j c0 c1)
  case 0
  then show ?case
    by (subst checksum_loop.simps) simp
next
  case (Suc d)
  then have lt: "j < k" and d: "d = k - (j + 1)" and le: "j + 1 \<le> k"
    by simp_all
  have up: "[j..<k] = j # [j + 1..<k]"
    using lt by (simp add: upt_conv_Cons)
  have "checksum_loop (4 * j) (4 * k) buf (c0, c1) =
        checksum_loop (4 * (j + 1)) (4 * k) buf
          (c0 XOR NOT (getbe32 buf (4 * j)), c1 - getbe32 buf (4 * j))"
    using lt by (subst checksum_loop.simps) (simp add: add.commute)
  also have "\<dots> =
      (fold (\<lambda>w c. c XOR NOT w) (map (\<lambda>j. getbe32 buf (4 * j)) [j + 1..<k])
         (c0 XOR NOT (getbe32 buf (4 * j))),
       fold (\<lambda>w c. c - w) (map (\<lambda>j. getbe32 buf (4 * j)) [j + 1..<k])
         (c1 - getbe32 buf (4 * j)))"
    by (rule Suc.hyps(1) [OF d le])
  finally show ?case
    by (simp add: up)
qed

lemma checksum_loop_pair:
  "checksum_loop 0 (m - m mod 4) buf (0, 0) = checksum_pair (be_words buf m)"
proof -
  have "m - m mod 4 = 4 * (m div 4)"
    by presburger
  then show ?thesis
    using checksum_loop_fold [of 0 "m div 4" buf 0 0]
    by (simp add: checksum_pair_def be_words_def)
qed

lemma d2_loop_length: "length (fst (d2_loop i n buf s0 s1 seeds idx fudge p)) = length buf"
proof (induction i n buf s0 s1 seeds idx fudge p rule: d2_loop.induct)
  case (1 i n buf s0 s1 seeds idx fudge p)
  show ?case
    by (subst d2_loop.simps) (use 1 in \<open>simp add: Let_def\<close>)
qed

lemma d2_loop_fields:
  "main_seeds (snd (d2_loop i n buf s0 s1 seeds idx fudge p)) = main_seeds seeds
   \<and> length_seeds (snd (d2_loop i n buf s0 s1 seeds idx fudge p)) = length_seeds seeds
   \<and> fence (snd (d2_loop i n buf s0 s1 seeds idx fudge p)) = fence seeds
   \<and> seed_data.more (snd (d2_loop i n buf s0 s1 seeds idx fudge p)) = seed_data.more seeds"
proof (induction i n buf s0 s1 seeds idx fudge p rule: d2_loop.induct)
  case (1 i n buf s0 s1 seeds idx fudge p)
  show ?case
    by (subst (1 2 3 4) d2_loop.simps) (use 1 in \<open>simp add: Let_def\<close>)
qed

lemma d2_loop_frame:
  "snd (d2_loop i n buf s0 s1 seeds idx fudge p) =
     seeds\<lparr>table := table (snd (d2_loop i n buf s0 s1 seeds idx fudge p))\<rparr>"
  by (rule seed_data.equality) (simp_all add: d2_loop_fields)

lemma d2_loop_above:
  "n \<le> j \<Longrightarrow> fst (d2_loop i n buf s0 s1 seeds idx fudge p) ! j = buf ! j"
proof (induction i n buf s0 s1 seeds idx fudge p rule: d2_loop.induct)
  case (1 i n buf s0 s1 seeds idx fudge p)
  show ?case
    by (subst d2_loop.simps) (use 1 in \<open>simp add: Let_def\<close>)
qed

subsection \<open>The call past the marker search\<close>

lemma descrambler2_past_marker:
  assumes "length buf mod 4 = 0" and "16 \<le> length buf"
    and "4 \<le> d2_marker buf" and "buf ! d2_marker buf = 0xff"
  shows "descrambler2 buf seeds past =
     (if checksum_pair (be_words ((d2_xor buf seeds)[d2_marker buf := 0]) (d2_marker buf))
           \<noteq> (getbe32 buf (length buf - 8), getbe32 buf (length buf - 12))
      then Inr (Some ChecksumMismatch, (d2_xor buf seeds)[d2_marker buf := 0], d2_seeds buf seeds)
      else case descramble_chunk ((d2_xor buf seeds)[d2_marker buf := 0]) 0
                  (min (d2_marker buf - d2_marker buf mod 4) 0x800)
                  (getbe32 buf (length buf - 4) + SEED_CONSTANT, main_seeds seeds ! 2)
                  0x80 past of
             Inl f \<Rightarrow> Inl f
           | Inr (ok, buf3, seed1) \<Rightarrow> Inr (None, buf3, d2_seeds buf seeds))"
  using assms unfolding descrambler2_def d2_marker_def d2_xor_def d2_seeds_def
  by (auto simp: Let_def case_prod_beta checksum_loop_pair prod_eq_iff d2_loop_fields)

lemma marker_scan_eq:
  assumes "e \<le> k" and "buf ! e = 0xff"
    and "\<And>j. e < j \<Longrightarrow> j \<le> k \<Longrightarrow> buf ! j \<noteq> 0xff"
  shows "marker_scan buf k = e"
proof -
  have "\<not> marker_scan buf k < e"
    using marker_scan_above [of buf k e] assms(1,2) by blast
  moreover have "\<not> e < marker_scan buf k"
  proof
    assume a: "e < marker_scan buf k"
    then have "buf ! marker_scan buf k = 0xff"
      using marker_scan_hit [of buf k] by auto
    then show False
      using assms(3) [OF a marker_scan_le] by simp
  qed
  ultimately show ?thesis
    by simp
qed

subsection \<open>The two inputs\<close>

lemma S4_like_state:
  "d2_xor S4_like seeds_example
     = [0, 0, 0, 0xB0, 0xF7, 0xB0, 0xFF, 0, 0, 0, 0, 0, 0, 0, 0, 0, 0, 0, 0, 0]"
  "d2_seeds S4_like seeds_example = seeds_example\<lparr>table := [0x14F75973, 0x2F09, 0x2F09]\<rparr>"
proof -
  have "getbe32 S4_like (length S4_like - 4) = 0" "table seeds_example ! 0 = 0"
    by (simp_all add: S4_like_def getbe32_def seeds_example_def)
  then show
    "d2_xor S4_like seeds_example
       = [0, 0, 0, 0xB0, 0xF7, 0xB0, 0xFF, 0, 0, 0, 0, 0, 0, 0, 0, 0, 0, 0, 0, 0]"
    "d2_seeds S4_like seeds_example = seeds_example\<lparr>table := [0x14F75973, 0x2F09, 0x2F09]\<rparr>"
    by (simp_all add: d2_xor_def d2_seeds_def S4_like_marker S4_like_loop)
qed

lemma D2_long_length: "length D2_long = 144"
  by (simp add: D2_long_def)

lemma D2_long_marker: "d2_marker D2_long = 5"
  unfolding d2_marker_def D2_long_length
  by (rule marker_scan_eq) (auto simp: D2_long_def nth_append nth_Cons')

lemma D2_long_tail:
  "getbe32 D2_long 140 = 0" "getbe32 D2_long 136 = 0xEEDDCC0B"
  "getbe32 D2_long 132 = 0xEEDDCC0C"
  by (simp_all add: D2_long_def getbe32_def nth_append)

lemma D2_long_loop:
  "d2_loop 0 5 D2_long SEED_CONSTANT 0 seeds_example 0 0 0 =
     ([0x11, 0x22, 0x33, 0xF4, 0xA2, 0xFF] @ replicate 126 0
        @ [0xEE, 0xDD, 0xCC, 0x0C, 0xEE, 0xDD, 0xCC, 0x0B, 0, 0, 0, 0],
      seeds_example\<lparr>table := [0x14F75973, 0x2F09, 0x2F09]\<rparr>)"
  apply (simp add: D2_long_def SEED_CONSTANT_def seeds_example_def)
  apply (subst d2_loop.simps, simp add: Let_def next_seed_def SEED_INCREMENT_def word_le_nat_alt)
  apply (subst d2_loop.simps, simp add: Let_def next_seed_def SEED_INCREMENT_def word_le_nat_alt)
  apply (subst d2_loop.simps, simp add: Let_def next_seed_def SEED_INCREMENT_def word_le_nat_alt)
  apply (subst d2_loop.simps, simp add: Let_def next_seed_def SEED_INCREMENT_def word_le_nat_alt)
  apply (subst d2_loop.simps, simp add: Let_def next_seed_def SEED_INCREMENT_def word_le_nat_alt)
  apply (subst d2_loop.simps, simp add: Let_def next_seed_def SEED_INCREMENT_def word_le_nat_alt)
  done

lemma D2_long_state:
  "d2_xor D2_long seeds_example
     = [0x11, 0x22, 0x33, 0xF4, 0xA2, 0xFF] @ replicate 126 0
         @ [0xEE, 0xDD, 0xCC, 0x0C, 0xEE, 0xDD, 0xCC, 0x0B, 0, 0, 0, 0]"
  "d2_seeds D2_long seeds_example = seeds_example\<lparr>table := [0x14F75973, 0x2F09, 0x2F09]\<rparr>"
proof -
  have "getbe32 D2_long (length D2_long - 4) = 0" "table seeds_example ! 0 = 0"
    by (simp_all add: D2_long_length D2_long_tail) (simp add: seeds_example_def)
  then show
    "d2_xor D2_long seeds_example
       = [0x11, 0x22, 0x33, 0xF4, 0xA2, 0xFF] @ replicate 126 0
           @ [0xEE, 0xDD, 0xCC, 0x0C, 0xEE, 0xDD, 0xCC, 0x0B, 0, 0, 0, 0]"
    "d2_seeds D2_long seeds_example = seeds_example\<lparr>table := [0x14F75973, 0x2F09, 0x2F09]\<rparr>"
    by (simp_all add: d2_xor_def d2_seeds_def D2_long_marker D2_long_loop)
qed

lemma D2_long_checksum:
  "checksum_pair (be_words ((d2_xor D2_long seeds_example)[5 := 0]) 5)
     = (0xEEDDCC0B, 0xEEDDCC0C)"
  by (simp add: D2_long_state be_words_def checksum_pair_def getbe32_def upt_conv_Cons)

lemma S4_like_checksum_pair:
  "checksum_pair (be_words ((d2_xor S4_like seeds_example)[6 := 0]) 6)
     = (0xFFFFFF4F, 0xFFFFFF50)"
  by (simp add: S4_like_state be_words_def checksum_pair_def getbe32_def upt_conv_Cons)

lemma D2_long_run:
  "\<exists>buf3. descrambler2 D2_long seeds_example 0
            = Inr (None, buf3, seeds_example\<lparr>table := [0x14F75973, 0x2F09, 0x2F09]\<rparr>)"
proof -
  have g: "length D2_long mod 4 = 0" "16 \<le> length D2_long" "4 \<le> d2_marker D2_long"
    "D2_long ! d2_marker D2_long = 0xff"
    by (simp_all add: D2_long_marker D2_long_length) (simp add: D2_long_def)
  have "length ((d2_xor D2_long seeds_example)[d2_marker D2_long := 0]) = 144"
    by (simp add: d2_xor_def d2_loop_length D2_long_length)
  then obtain buf3 seed1' where
    "descramble_chunk ((d2_xor D2_long seeds_example)[d2_marker D2_long := 0]) 0 4
       (getbe32 D2_long (length D2_long - 4) + SEED_CONSTANT, main_seeds seeds_example ! 2)
       0x80 0 = Inr (True, buf3, seed1')"
    using descramble_chunk_image [where slice_size = "0x80" and m = 1 and chunk = 0
        and chunk_size = 4 and mem = "(d2_xor D2_long seeds_example)[d2_marker D2_long := 0]"
        and seed = "(getbe32 D2_long (length D2_long - 4) + SEED_CONSTANT,
                     main_seeds seeds_example ! 2)" and past = 0]
    by auto
  then show ?thesis
    using D2_long_tail
    by (simp add: descrambler2_past_marker [OF g] D2_long_checksum D2_long_marker
        D2_long_length D2_long_state(2))
qed

subsection \<open>The checksum comparison\<close>

text \<open>
  \<^bold>\<open>C7\<close>.  A call that gets past the size check and the marker search
  runs the byte loop, which leaves the marker byte \<open>0xFF\<close>, and overwrites
  the marker byte with 0.  With \<open>n\<close> the marker index with its two low bits
  cleared, it fails with the checksum message if and only if the pair
  \<open>(c0, c1)\<close> computed over the big-endian words of \<open>buf[0..n]\<close> (\<open>c0\<close> the
  running XOR of the complements, \<open>c1\<close> the running wrapping subtraction)
  differs from the stored pair \<open>(checksum0, checksum1)\<close> read at
  \<open>size - 8\<close> and \<open>size - 12\<close>.  When it fails so, the buffer it leaves is
  the overwritten one; when it does not, it hands the overwritten buffer to
  the bit-swap pass and leaves what the pass returns.
\<close>

theorem d2_checksum_rule:
  assumes "length buf mod 4 = 0" and "16 \<le> length buf"
    and "4 \<le> d2_marker buf" and "buf ! d2_marker buf = 0xff"
  shows "(reports (descrambler2 buf seeds past) ChecksumMismatch \<longleftrightarrow>
           checksum_pair (be_words ((d2_xor buf seeds)[d2_marker buf := 0]) (d2_marker buf))
             \<noteq> (getbe32 buf (length buf - 8), getbe32 buf (length buf - 12)))
     \<and> d2_xor buf seeds ! d2_marker buf = 0xff
     \<and> (d2_xor buf seeds)[d2_marker buf := 0] ! d2_marker buf = 0
     \<and> (reports (descrambler2 buf seeds past) ChecksumMismatch \<longrightarrow>
          buffer_after (descrambler2 buf seeds past)
            = Some ((d2_xor buf seeds)[d2_marker buf := 0]))
     \<and> (\<not> reports (descrambler2 buf seeds past) ChecksumMismatch \<longrightarrow>
          buffer_after (descrambler2 buf seeds past)
            = pass_buffer (descramble_chunk ((d2_xor buf seeds)[d2_marker buf := 0]) 0
                (min (d2_marker buf - d2_marker buf mod 4) 0x800)
                (getbe32 buf (length buf - 4) + SEED_CONSTANT, main_seeds seeds ! 2)
                0x80 past))"
proof -
  note run = descrambler2_past_marker [OF assms, of seeds past]
  have "d2_marker buf \<le> length buf - 13"
    by (simp add: d2_marker_def marker_scan_le)
  then have lt: "d2_marker buf < length (d2_xor buf seeds)"
    using assms(2) by (simp add: d2_xor_def d2_loop_length)
  have iff: "reports (descrambler2 buf seeds past) ChecksumMismatch \<longleftrightarrow>
           checksum_pair (be_words ((d2_xor buf seeds)[d2_marker buf := 0]) (d2_marker buf))
             \<noteq> (getbe32 buf (length buf - 8), getbe32 buf (length buf - 12))"
    unfolding run by (simp add: reports_def split: sum.splits)
  have before: "d2_xor buf seeds ! d2_marker buf = 0xff"
    using assms(4) by (simp add: d2_xor_def d2_loop_above)
  have after: "(d2_xor buf seeds)[d2_marker buf := 0] ! d2_marker buf = 0"
    using lt by simp
  have fails: "buffer_after (descrambler2 buf seeds past)
            = Some ((d2_xor buf seeds)[d2_marker buf := 0])"
    if "reports (descrambler2 buf seeds past) ChecksumMismatch"
    using that unfolding iff unfolding run by (simp add: buffer_after_def)
  have passes: "buffer_after (descrambler2 buf seeds past)
            = pass_buffer (descramble_chunk ((d2_xor buf seeds)[d2_marker buf := 0]) 0
                (min (d2_marker buf - d2_marker buf mod 4) 0x800)
                (getbe32 buf (length buf - 4) + SEED_CONSTANT, main_seeds seeds ! 2)
                0x80 past)"
    if "\<not> reports (descrambler2 buf seeds past) ChecksumMismatch"
    using that unfolding iff unfolding run
    by (simp add: buffer_after_def pass_buffer_def split: sum.splits)
  show ?thesis
    using iff before after fails passes by blast
qed

theorem d2_checksum_rule_witness:
  "length D2_long mod 4 = 0 \<and> 16 \<le> length D2_long \<and> 4 \<le> d2_marker D2_long
   \<and> D2_long ! d2_marker D2_long = 0xff
   \<and> checksum_pair (be_words ((d2_xor D2_long seeds_example)[d2_marker D2_long := 0])
                      (d2_marker D2_long))
       = (getbe32 D2_long (length D2_long - 8), getbe32 D2_long (length D2_long - 12))
   \<and> \<not> reports (descrambler2 D2_long seeds_example 0) ChecksumMismatch
   \<and> (\<exists>buf3. descrambler2 D2_long seeds_example 0
                = Inr (None, buf3, seeds_example\<lparr>table := [0x14F75973, 0x2F09, 0x2F09]\<rparr>)
              \<and> pass_buffer (descramble_chunk
                    ((d2_xor D2_long seeds_example)[d2_marker D2_long := 0]) 0 4
                    (SEED_CONSTANT, 0x00C0FFEE) 0x80 0) = Some buf3)
   \<and> length S4_like mod 4 = 0 \<and> 16 \<le> length S4_like \<and> 4 \<le> d2_marker S4_like
   \<and> S4_like ! d2_marker S4_like = 0xff
   \<and> checksum_pair (be_words ((d2_xor S4_like seeds_example)[d2_marker S4_like := 0])
                      (d2_marker S4_like))
       = (0xFFFFFF4F, 0xFFFFFF50)
   \<and> (getbe32 S4_like (length S4_like - 8), getbe32 S4_like (length S4_like - 12)) = (0, 0)
   \<and> reports (descrambler2 S4_like seeds_example 0) ChecksumMismatch
   \<and> buffer_after (descrambler2 S4_like seeds_example 0)
       = Some [0, 0, 0, 0xB0, 0xF7, 0xB0, 0, 0, 0, 0, 0, 0, 0, 0, 0, 0, 0, 0, 0, 0]"
proof -
  have g: "length D2_long mod 4 = 0" "16 \<le> length D2_long" "4 \<le> d2_marker D2_long"
    "D2_long ! d2_marker D2_long = 0xff"
    by (simp_all add: D2_long_marker D2_long_length) (simp add: D2_long_def)
  have s: "length S4_like mod 4 = 0" "16 \<le> length S4_like" "4 \<le> d2_marker S4_like"
    "S4_like ! d2_marker S4_like = 0xff"
    by (simp_all add: S4_like_marker) (simp_all add: S4_like_def)
  have tg: "getbe32 D2_long (length D2_long - 8) = 0xEEDDCC0B"
    "getbe32 D2_long (length D2_long - 12) = 0xEEDDCC0C"
    "getbe32 D2_long (length D2_long - 4) = 0"
    by (simp_all add: D2_long_length D2_long_tail)
  have ts: "getbe32 S4_like (length S4_like - 8) = 0" "getbe32 S4_like (length S4_like - 12) = 0"
    by (simp_all add: S4_like_def getbe32_def)
  have m: "main_seeds seeds_example ! 2 = 0x00C0FFEE"
    by (simp add: seeds_example_def)
  obtain buf3 where r: "descrambler2 D2_long seeds_example 0
      = Inr (None, buf3, seeds_example\<lparr>table := [0x14F75973, 0x2F09, 0x2F09]\<rparr>)"
    using D2_long_run by blast
  have b: "(d2_xor S4_like seeds_example)[d2_marker S4_like := 0]
      = [0, 0, 0, 0xB0, 0xF7, 0xB0, 0, 0, 0, 0, 0, 0, 0, 0, 0, 0, 0, 0, 0, 0]"
    by (simp add: S4_like_state S4_like_marker)
  have accepted: "\<not> reports (descrambler2 D2_long seeds_example 0) ChecksumMismatch
      \<and> buffer_after (descrambler2 D2_long seeds_example 0)
          = pass_buffer (descramble_chunk
              ((d2_xor D2_long seeds_example)[d2_marker D2_long := 0]) 0 4
              (SEED_CONSTANT, 0x00C0FFEE) 0x80 0)"
    using d2_checksum_rule [OF g, of seeds_example 0]
    by (simp add: D2_long_checksum tg m D2_long_marker)
  have rejected: "reports (descrambler2 S4_like seeds_example 0) ChecksumMismatch
      \<and> buffer_after (descrambler2 S4_like seeds_example 0)
          = Some ((d2_xor S4_like seeds_example)[d2_marker S4_like := 0])"
    using d2_checksum_rule [OF s, of seeds_example 0]
    by (simp add: S4_like_checksum_pair S4_like_marker ts)
  have "pass_buffer (descramble_chunk
              ((d2_xor D2_long seeds_example)[d2_marker D2_long := 0]) 0 4
              (SEED_CONSTANT, 0x00C0FFEE) 0x80 0) = Some buf3"
    using accepted by (simp add: r buffer_after_def)
  with r have "\<exists>buf3. descrambler2 D2_long seeds_example 0
                = Inr (None, buf3, seeds_example\<lparr>table := [0x14F75973, 0x2F09, 0x2F09]\<rparr>)
              \<and> pass_buffer (descramble_chunk
                    ((d2_xor D2_long seeds_example)[d2_marker D2_long := 0]) 0 4
                    (SEED_CONSTANT, 0x00C0FFEE) 0x80 0) = Some buf3"
    by blast
  moreover have "buffer_after (descrambler2 S4_like seeds_example 0)
       = Some [0, 0, 0, 0xB0, 0xF7, 0xB0, 0, 0, 0, 0, 0, 0, 0, 0, 0, 0, 0, 0, 0, 0]"
    using rejected b by simp
  ultimately show ?thesis
    using g s accepted rejected D2_long_checksum S4_like_checksum_pair tg ts
    by (simp add: D2_long_marker S4_like_marker)
qed

subsection \<open>The end marker\<close>

text \<open>
  \<^bold>\<open>C8\<close>, as stated, fails in its scenario: the last thirteen bytes of
  \<open>S4_like\<close> hold no \<open>0xFF\<close>, and descrambler2 finds the marker at
  index 6 and goes on to the checksum comparison.
\<close>

theorem S4_counterexample:
  "0xFF \<notin> set (drop (length S4_like - 13) S4_like)
   \<and> \<not> reports (descrambler2 S4_like seeds_example 0) MarkerNotFound
   \<and> reports (descrambler2 S4_like seeds_example 0) ChecksumMismatch"
  by (simp add: S4_like_run reports_def) (simp add: S4_like_def)

text \<open>
  \<^bold>\<open>C8\<close>, amended.  For a buffer that passes the size check, descrambler2
  scans backwards from index \<open>size - 13\<close> and stops at the first byte equal
  to \<open>0xFF\<close> or at index 0; it fails with the marker message exactly when
  no byte equal to \<open>0xFF\<close> stands at an index from 4 to \<open>size - 13\<close>.  So
  an input with no \<open>0xFF\<close> at those indices yields the marker failure,
  whatever its last twelve bytes hold.
\<close>

theorem d2_marker_rule:
  assumes "length buf mod 4 = 0" and "16 \<le> length buf"
  shows "d2_marker buf \<le> length buf - 13
     \<and> (\<forall>j. d2_marker buf < j \<and> j \<le> length buf - 13 \<longrightarrow> buf ! j \<noteq> 0xff)
     \<and> (d2_marker buf = 0 \<or> buf ! d2_marker buf = 0xff)
     \<and> (reports (descrambler2 buf seeds past) MarkerNotFound \<longleftrightarrow>
          \<not> (\<exists>e. 4 \<le> e \<and> e \<le> length buf - 13 \<and> buf ! e = 0xff))"
  using reports_marker_iff [OF assms, of seeds past]
    marker_found_iff [of buf "length buf - 13"]
    marker_scan_le [of buf "length buf - 13"]
    marker_scan_hit [of buf "length buf - 13"]
    marker_scan_above [of buf "length buf - 13"]
  unfolding d2_marker_def by blast

theorem d2_marker_rule_witness:
  "length (replicate 7 0 @ replicate 13 (0xFF :: u8)) mod 4 = 0
   \<and> 16 \<le> length (replicate 7 0 @ replicate 13 (0xFF :: u8))
   \<and> reports (descrambler2 (replicate 7 0 @ [0] @ replicate 12 0xFF) seeds_example 0) MarkerNotFound"
proof -
  have "(replicate 7 0 @ [0] @ replicate 12 (0xFF :: u8)) ! e \<noteq> 0xff" if "e \<le> 7" for e
    using that by (simp add: nth_append)
  then show ?thesis
    using d2_marker_rule [of "replicate 7 0 @ [0] @ replicate 12 0xFF" seeds_example 0]
    by simp
qed

subsection \<open>The seed switches of the byte loop\<close>

lemma counter_reaches:
  fixes p L :: u32
  assumes "unat p + 1 = max 1 (unat L)"
  shows "L \<le> p + 1"
proof (cases "unat L \<le> 1")
  case True
  then have "unat p = 0"
    using assms by simp
  then have "p = 0"
    by (simp add: unat_eq_0)
  then show ?thesis
    using True by (simp add: word_le_nat_alt)
next
  case False
  then have "unat p + 1 = unat L"
    using assms by simp
  moreover have "unat L < 2 ^ 32"
    by (rule unat_lt_32)
  ultimately have "unat (p + 1) = unat L"
    by (simp add: unat_word_ariths)
  then show ?thesis
    by (simp add: word_le_nat_alt)
qed

lemma counter_below:
  fixes p L :: u32
  assumes "unat p + 1 < max 1 (unat L)"
  shows "\<not> L \<le> p + 1" and "unat (p + 1) = unat p + 1"
proof -
  have lt: "unat p + 1 < unat L"
    using assms by (simp add: max_def split: if_splits)
  moreover have "unat L < 2 ^ 32"
    by (rule unat_lt_32)
  ultimately show "unat (p + 1) = unat p + 1"
    by (simp add: unat_word_ariths)
  with lt show "\<not> L \<le> p + 1"
    by (simp add: word_le_nat_alt)
qed

lemma d2_loop_segment:
  assumes "d = segment_length seeds idx fudge - unat p" and "unat p < segment_length seeds idx fudge"
    and "i + d \<le> n"
  shows "\<exists>buf'. d2_loop i n buf s0 s1 seeds idx fudge p =
           d2_loop (i + d) n buf' s0
             (table (seeds\<lparr>table := (table seeds)[idx := (next_seed s0 ^^ d) s1]\<rparr>)
                ! (if idx + 1 \<ge> 3 then 0 else idx + 1))
             (seeds\<lparr>table := (table seeds)[idx := (next_seed s0 ^^ d) s1]\<rparr>)
             (if idx + 1 \<ge> 3 then 0 else idx + 1)
             (if idx + 1 \<ge> 3 then fudge + 1 else fudge) 0"
  using assms
proof (induction d arbitrary: i buf s1 p)
  case 0
  then show ?case
    by simp
next
  case (Suc d)
  have i: "i < n"
    using Suc.prems(3) by simp
  show ?case
  proof (cases "d = 0")
    case True
    then have "unat p + 1 = max 1 (unat (length_seeds seeds ! idx + fudge))"
      using Suc.prems(1,2) by (simp add: segment_length_def)
    then have "length_seeds seeds ! idx + fudge \<le> p + 1"
      by (rule counter_reaches)
    then show ?thesis
      using i True by (subst d2_loop.simps) (auto simp: Let_def)
  next
    case False
    then have "unat p + 1 < max 1 (unat (length_seeds seeds ! idx + fudge))"
      using Suc.prems(1,2) by (simp add: segment_length_def)
    then have no: "\<not> length_seeds seeds ! idx + fudge \<le> p + 1"
      and u: "unat (p + 1) = unat p + 1"
      by (rule counter_below)+
    have step: "d2_loop i n buf s0 s1 seeds idx fudge p =
        d2_loop (i + 1) n (buf[i := buf ! i XOR ucast (drop_bit 16 (next_seed s0 s1))]) s0
          (next_seed s0 s1) seeds idx fudge (p + 1)"
      using i no by (subst d2_loop.simps) (simp add: Let_def)
    have "\<exists>buf'. d2_loop (i + 1) n (buf[i := buf ! i XOR ucast (drop_bit 16 (next_seed s0 s1))]) s0
          (next_seed s0 s1) seeds idx fudge (p + 1) =
        d2_loop (i + 1 + d) n buf' s0
             (table (seeds\<lparr>table := (table seeds)[idx := (next_seed s0 ^^ d) (next_seed s0 s1)]\<rparr>)
                ! (if idx + 1 \<ge> 3 then 0 else idx + 1))
             (seeds\<lparr>table := (table seeds)[idx := (next_seed s0 ^^ d) (next_seed s0 s1)]\<rparr>)
             (if idx + 1 \<ge> 3 then 0 else idx + 1)
             (if idx + 1 \<ge> 3 then fudge + 1 else fudge) 0"
      using Suc.prems False u by (intro Suc.IH) simp_all
    then show ?thesis
      unfolding step by (simp add: funpow_swap1)
  qed
qed

lemma d2_loop_partial:
  assumes "unat p < segment_length seeds idx fudge"
    and "n < i + (segment_length seeds idx fudge - unat p)"
  shows "snd (d2_loop i n buf s0 s1 seeds idx fudge p) = seeds"
  using assms
proof (induction "n - i" arbitrary: i buf s1 p)
  case 0
  then show ?case
    by (subst d2_loop.simps) simp
next
  case (Suc m)
  then have i: "i < n"
    by simp
  have "unat p + 1 < max 1 (unat (length_seeds seeds ! idx + fudge))"
    using Suc.prems i by (simp add: segment_length_def)
  then have no: "\<not> length_seeds seeds ! idx + fudge \<le> p + 1"
    and u: "unat (p + 1) = unat p + 1"
    by (rule counter_below)+
  have step: "d2_loop i n buf s0 s1 seeds idx fudge p =
        d2_loop (i + 1) n (buf[i := buf ! i XOR ucast (drop_bit 16 (next_seed s0 s1))]) s0
          (next_seed s0 s1) seeds idx fudge (p + 1)"
    using i no by (subst d2_loop.simps) (simp add: Let_def)
  show ?case
    unfolding step using Suc.hyps(2) Suc.prems u i by (intro Suc.hyps(1)) simp_all
qed

lemma d2_loop_switched:
  "snd (d2_loop i (i + m) buf seed0 (table seeds ! idx) seeds idx fudge 0)
     = seeds_switched m seed0 seeds idx fudge"
proof (induction m seed0 seeds idx fudge arbitrary: i buf rule: seeds_switched.induct)
  case (1 m seed0 seeds idx fudge)
  define k where "k = segment_length seeds idx fudge"
  have k: "0 < k"
    by (simp add: k_def segment_length_def)
  show ?case
  proof (cases "k \<le> m")
    case True
    define seeds' where "seeds' = seeds\<lparr>table := (table seeds)
        [idx := (next_seed seed0 ^^ k) (table seeds ! idx)]\<rparr>"
    obtain buf' where "d2_loop i (i + m) buf seed0 (table seeds ! idx) seeds idx fudge 0 =
        d2_loop (i + k) (i + m) buf' seed0 (table seeds' ! (if idx + 1 \<ge> 3 then 0 else idx + 1))
          seeds' (if idx + 1 \<ge> 3 then 0 else idx + 1)
          (if idx + 1 \<ge> 3 then fudge + 1 else fudge) 0"
      using d2_loop_segment [where d = k and seeds = seeds and idx = idx and fudge = fudge
          and p = 0 and i = i and n = "i + m" and buf = buf and ?s0.0 = seed0
          and ?s1.0 = "table seeds ! idx"] True k
      unfolding seeds'_def k_def by auto
    moreover have "i + m = (i + k) + (m - k)"
      using True by simp
    ultimately have "snd (d2_loop i (i + m) buf seed0 (table seeds ! idx) seeds idx fudge 0) =
        seeds_switched (m - k) seed0 seeds' (if idx + 1 \<ge> 3 then 0 else idx + 1)
          (if idx + 1 \<ge> 3 then fudge + 1 else fudge)"
      using "1.IH" [OF refl True [unfolded k_def] refl refl, of "i + k" buf']
      by (simp add: k_def seeds'_def)
    then show ?thesis
      using True by (subst seeds_switched.simps) (simp add: Let_def k_def seeds'_def)
  next
    case False
    then have "snd (d2_loop i (i + m) buf seed0 (table seeds ! idx) seeds idx fudge 0) = seeds"
      using k by (intro d2_loop_partial) (simp_all add: k_def)
    then show ?thesis
      using False by (subst seeds_switched.simps) (simp add: Let_def k_def)
  qed
qed

subsection \<open>The seed structure\<close>

text \<open>
  \<^bold>\<open>C5\<close>, as stated, fails: the call on \<open>S4_like\<close> returns with
  \<^verbatim>\<open>seeds.table\<close> overwritten.
\<close>

theorem seeds_table_counterexample:
  "table seeds_example = [0, 0, 0]
   \<and> map_option table (seeds_after (descrambler2 S4_like seeds_example 0))
       = Some [0x14F75973, 0x2F09, 0x2F09]"
  by (simp add: S4_like_run seeds_after_def) (simp add: seeds_example_def)

text \<open>
  \<^bold>\<open>C5\<close>, amended.  Whenever descrambler2 returns, \<^verbatim>\<open>seeds.main\<close>,
  \<^verbatim>\<open>seeds.length\<close> and \<^verbatim>\<open>seeds.fence\<close> hold the values they held before
  the call, and so does \<^verbatim>\<open>seeds.table\<close> when the call fails on the size
  check or on the marker search.  When it fails on the checksum or succeeds,
  the caller's structure is the one the byte loop has written through the
  pointer: over the bytes before the marker, every completed segment has
  overwritten \<^verbatim>\<open>seeds.table[seed_index]\<close> with the running state at its seed
  switch, as \<open>seeds_switched\<close> says, and nothing after the loop touches the
  structure.
\<close>

theorem descrambler2_seeds_frame:
  assumes "descrambler2 buf seeds past = Inr (e, buf', seeds')"
  shows "main_seeds seeds' = main_seeds seeds \<and> length_seeds seeds' = length_seeds seeds
     \<and> fence seeds' = fence seeds
     \<and> (e = Some SizeConstraint \<or> e = Some MarkerNotFound \<longrightarrow> seeds' = seeds)
     \<and> (e = Some ChecksumMismatch \<or> e = None \<longrightarrow>
          seeds' = seeds_switched (d2_marker buf) (getbe32 buf (length buf - 4) + SEED_CONSTANT)
                     seeds 0 0)"
proof (cases "length buf mod 4 \<noteq> 0 \<or> length buf < 16")
  case True
  with assms show ?thesis
    by (auto simp: descrambler2_def)
next
  case size_ok: False
  show ?thesis
  proof (cases "d2_marker buf < 4 \<or> buf ! d2_marker buf \<noteq> 0xff")
    case True
    with assms size_ok show ?thesis
      by (auto simp: descrambler2_def d2_marker_def Let_def)
  next
    case False
    have run: "descrambler2 buf seeds past =
       (if checksum_pair (be_words ((d2_xor buf seeds)[d2_marker buf := 0]) (d2_marker buf))
             \<noteq> (getbe32 buf (length buf - 8), getbe32 buf (length buf - 12))
        then Inr (Some ChecksumMismatch, (d2_xor buf seeds)[d2_marker buf := 0],
                  d2_seeds buf seeds)
        else case descramble_chunk ((d2_xor buf seeds)[d2_marker buf := 0]) 0
                    (min (d2_marker buf - d2_marker buf mod 4) 0x800)
                    (getbe32 buf (length buf - 4) + SEED_CONSTANT, main_seeds seeds ! 2)
                    0x80 past of
               Inl f \<Rightarrow> Inl f
             | Inr (ok, buf3, seed1) \<Rightarrow> Inr (None, buf3, d2_seeds buf seeds))"
      using size_ok False by (intro descrambler2_past_marker) simp_all
    have eq: "seeds' = d2_seeds buf seeds"
      using assms unfolding run by (auto split: if_splits sum.splits)
    have sw: "d2_seeds buf seeds =
        seeds_switched (d2_marker buf) (getbe32 buf (length buf - 4) + SEED_CONSTANT) seeds 0 0"
      using d2_loop_switched [of 0 "d2_marker buf" buf
          "getbe32 buf (length buf - 4) + SEED_CONSTANT" seeds 0 0]
      by (simp add: d2_seeds_def)
    have "main_seeds (d2_seeds buf seeds) = main_seeds seeds
       \<and> length_seeds (d2_seeds buf seeds) = length_seeds seeds
       \<and> fence (d2_seeds buf seeds) = fence seeds"
      by (simp add: d2_seeds_def d2_loop_fields)
    moreover have "e = Some ChecksumMismatch \<or> e = None"
      using assms unfolding run by (auto split: if_splits sum.splits)
    ultimately show ?thesis
      using eq sw by auto
  qed
qed

theorem descrambler2_seeds_frame_witness:
  "descrambler2 S4_like seeds_example 0 =
     Inr (Some ChecksumMismatch,
          [0, 0, 0, 0xB0, 0xF7, 0xB0, 0, 0, 0, 0, 0, 0, 0, 0, 0, 0, 0, 0, 0, 0],
          seeds_example\<lparr>table := [0x14F75973, 0x2F09, 0x2F09]\<rparr>)
   \<and> main_seeds (seeds_example\<lparr>table := [0x14F75973, 0x2F09, 0x2F09]\<rparr>)
       = main_seeds seeds_example
   \<and> length_seeds (seeds_example\<lparr>table := [0x14F75973, 0x2F09, 0x2F09]\<rparr>)
       = length_seeds seeds_example
   \<and> fence (seeds_example\<lparr>table := [0x14F75973, 0x2F09, 0x2F09]\<rparr>) = fence seeds_example
   \<and> seeds_switched (d2_marker S4_like) (getbe32 S4_like (length S4_like - 4) + SEED_CONSTANT)
         seeds_example 0 0
       = seeds_example\<lparr>table := [0x14F75973, 0x2F09, 0x2F09]\<rparr>
   \<and> (\<exists>buf3. descrambler2 D2_long seeds_example 0
                = Inr (None, buf3, seeds_example\<lparr>table := [0x14F75973, 0x2F09, 0x2F09]\<rparr>))
   \<and> seeds_switched (d2_marker D2_long) (getbe32 D2_long (length D2_long - 4) + SEED_CONSTANT)
         seeds_example 0 0
       = seeds_example\<lparr>table := [0x14F75973, 0x2F09, 0x2F09]\<rparr>"
proof -
  obtain buf3 where r: "descrambler2 D2_long seeds_example 0
      = Inr (None, buf3, seeds_example\<lparr>table := [0x14F75973, 0x2F09, 0x2F09]\<rparr>)"
    using D2_long_run by blast
  have accepted: "seeds_switched (d2_marker D2_long)
          (getbe32 D2_long (length D2_long - 4) + SEED_CONSTANT) seeds_example 0 0
       = seeds_example\<lparr>table := [0x14F75973, 0x2F09, 0x2F09]\<rparr>"
    using descrambler2_seeds_frame [OF r] by simp
  have rejected: "seeds_switched (d2_marker S4_like)
          (getbe32 S4_like (length S4_like - 4) + SEED_CONSTANT) seeds_example 0 0
       = seeds_example\<lparr>table := [0x14F75973, 0x2F09, 0x2F09]\<rparr>"
    using descrambler2_seeds_frame [OF S4_like_run] by simp
  have fields: "main_seeds (seeds_example\<lparr>table := [0x14F75973, 0x2F09, 0x2F09]\<rparr>)
       = main_seeds seeds_example"
      "length_seeds (seeds_example\<lparr>table := [0x14F75973, 0x2F09, 0x2F09]\<rparr>)
       = length_seeds seeds_example"
      "fence (seeds_example\<lparr>table := [0x14F75973, 0x2F09, 0x2F09]\<rparr>) = fence seeds_example"
    by simp_all
  show ?thesis
    using accepted rejected fields S4_like_run r by blast
qed

end
